theory Spec2Isabelle
  imports Main "HOL-Library.AList"
begin

section \<open>The workshop synchroniser (workshop.py)\<close>

text \<open>
  A shallow embedding of \<^verbatim>\<open>src/workshop.py\<close>. Python dictionaries keep their insertion
  order, so a dictionary is an association list: writing a key that is present replaces its
  value in place, writing a new key appends it (\<open>AList.update\<close> does both). Identifiers
  are the strings the catalog and the command line give.
\<close>

subsection \<open>Data\<close>

type_synonym 'v dict = "(string \<times> 'v) list"

definition keys :: "'v dict \<Rightarrow> string list" where
  "keys d = map fst d"

text \<open>
  One record of \<^verbatim>\<open>publishedfiledetails\<close>, as the catalog returns it. Each of the four keys
  the program reads may be missing from the JSON object.
\<close>

record plugin =
  publishedfileid :: "string option"
  title :: "string option"
  time_updated :: "int option"
  file_url :: "string option"

text \<open>
  What the program keeps of a plugin:
  \<^verbatim>\<open>{k: plugin[k] for k in ('title', 'time_updated') if k in plugin}\<close>.
\<close>

type_synonym meta = "string option \<times> int option"

definition meta_of :: "plugin \<Rightarrow> meta" where
  "meta_of p = (title p, time_updated p)"

subsection \<open>plugins\_to\_remove\<close>

text \<open>
  The \<^verbatim>\<open>for plugin_id in old_plugins.keys()\<close> loop, with the list it appends to as
  accumulator. The function reads its two arguments and builds a fresh list; it writes
  nothing else.
\<close>

fun plugins_to_remove_loop :: "string list \<Rightarrow> string list \<Rightarrow> string list \<Rightarrow> string list" where
  "plugins_to_remove_loop plugins_id_list [] deprecated_plugins = deprecated_plugins"
| "plugins_to_remove_loop plugins_id_list (plugin_id # rest) deprecated_plugins =
     plugins_to_remove_loop plugins_id_list rest
       (if plugin_id \<notin> set plugins_id_list then deprecated_plugins @ [plugin_id]
        else deprecated_plugins)"

definition plugins_to_remove :: "string list \<Rightarrow> 'v dict \<Rightarrow> string list" where
  "plugins_to_remove plugins_id_list old_plugins =
     plugins_to_remove_loop plugins_id_list (keys old_plugins) []"

subsection \<open>download\_plugins\_concurrently\<close>

text \<open>
  What \<^verbatim>\<open>urllib.request.urlretrieve\<close> does for one call: it stores the file, raises
  \<^verbatim>\<open>HTTPError\<close> (the one exception the worker catches), or raises something else
  (\<^verbatim>\<open>URLError\<close>, \<^verbatim>\<open>OSError\<close>), which ends the worker thread and nothing more.
\<close>

datatype dl_outcome = Retrieved | HTTPError int | OtherError

text \<open>\<^verbatim>\<open>os.path.join\<close> of two components, as \<^verbatim>\<open>posixpath\<close> defines it.\<close>

definition path_join :: "string \<Rightarrow> string \<Rightarrow> string" where
  "path_join a b =
     (if b \<noteq> [] \<and> hd b = CHR ''/'' then b
      else if a = [] \<or> last a = CHR ''/'' then a @ b
      else a @ ''/'' @ b)"

text \<open>
  The variables the workers and the dispatching loop share. A plugin travels with its
  position in the batch, which stands for the identity of the Python object. \<open>todo\<close> is
  what the \<^verbatim>\<open>for plugin in plugins\<close> loop has not reached, \<open>threads\<close> the workers
  started and not yet finished. \<open>calls\<close> logs every \<^verbatim>\<open>urlretrieve(url, path)\<close> with the
  position of the plugin, and \<open>skipped\<close> the positions the loop passed with
  \<^verbatim>\<open>continue\<close>; the program keeps neither, they are there to state what happened.
\<close>

record dl_state =
  todo :: "(nat \<times> plugin) list"
  threads :: "(nat \<times> plugin) list"
  downloads :: nat
  error :: nat
  fail :: "(nat \<times> plugin) list"
  succeed :: "meta dict"
  calls :: "(nat \<times> string \<times> string) list"
  skipped :: "nat list"

text \<open>
  The test \<^verbatim>\<open>id in old_plugins and old_plugins[id]['time_updated'] == plugin['time_updated']\<close>.
  \<open>None\<close> is the \<^verbatim>\<open>KeyError\<close> of a missing \<^verbatim>\<open>time_updated\<close>, on either side.
\<close>

definition up_to_date :: "meta dict \<Rightarrow> plugin \<Rightarrow> string \<Rightarrow> bool option" where
  "up_to_date old_plugins p pid =
     (case map_of old_plugins pid of
        None \<Rightarrow> Some False
      | Some old \<Rightarrow>
          (case snd old of
             None \<Rightarrow> None
           | Some t_old \<Rightarrow>
               (case time_updated p of None \<Rightarrow> None | Some t_new \<Rightarrow> Some (t_old = t_new))))"

text \<open>
  The worker \<^verbatim>\<open>download_plugin\<close>, run to its end in one step. A plugin without
  \<^verbatim>\<open>file_url\<close> falls through the \<^verbatim>\<open>if\<close>, which has no \<^verbatim>\<open>else\<close>. The display name is
  formatted from \<^verbatim>\<open>title\<close> and \<^verbatim>\<open>publishedfileid\<close>: a plugin missing one of them raises
  \<^verbatim>\<open>KeyError\<close> in its thread, which ends there and leaves the shared variables as they are.
\<close>

definition download_plugin ::
  "string \<Rightarrow> meta dict \<Rightarrow> (nat \<Rightarrow> string \<Rightarrow> string \<Rightarrow> dl_outcome) \<Rightarrow> nat \<times> plugin \<Rightarrow> dl_state \<Rightarrow> dl_state" where
  "download_plugin output_dir old_plugins urlretrieve ip s =
     (case file_url (snd ip) of
        None \<Rightarrow> s
      | Some url \<Rightarrow>
          (case title (snd ip) of
             None \<Rightarrow> s
           | Some t \<Rightarrow>
               (case publishedfileid (snd ip) of
                  None \<Rightarrow> s
                | Some pid \<Rightarrow>
                    (case up_to_date old_plugins (snd ip) pid of
                       None \<Rightarrow> s
                     | Some True \<Rightarrow>
                         s\<lparr>succeed := AList.update pid (meta_of (snd ip)) (succeed s)\<rparr>
                     | Some False \<Rightarrow>
                         (let path = path_join output_dir (pid @ ''.vpk'');
                              s' = s\<lparr>calls := calls s @ [(fst ip, url, path)]\<rparr>
                          in case urlretrieve (fst ip) url path of
                               Retrieved \<Rightarrow>
                                 s'\<lparr>succeed := AList.update pid (meta_of (snd ip)) (succeed s'),
                                    downloads := Suc (downloads s')\<rparr>
                             | HTTPError code \<Rightarrow>
                                 s'\<lparr>error := Suc (error s'), fail := fail s' @ [ip]\<rparr>
                             | OtherError \<Rightarrow> s')))))"

text \<open>
  One turn of the dispatching loop: with the cap reached (\<^verbatim>\<open>downloads >= g_iLimitDownloads
  and g_iLimitDownloads != 0\<close>) the plugin is passed over, otherwise its thread is started.
\<close>

definition dispatch :: "int \<Rightarrow> dl_state \<Rightarrow> dl_state" where
  "dispatch g_iLimitDownloads s =
     (case todo s of
        [] \<Rightarrow> s
      | ip # rest \<Rightarrow>
          if int (downloads s) \<ge> g_iLimitDownloads \<and> g_iLimitDownloads \<noteq> 0
          then s\<lparr>todo := rest, skipped := skipped s @ [fst ip]\<rparr>
          else s\<lparr>todo := rest, threads := threads s @ [ip]\<rparr>)"

text \<open>The \<open>k\<close>-th running worker finishes.\<close>

definition finish ::
  "string \<Rightarrow> meta dict \<Rightarrow> (nat \<Rightarrow> string \<Rightarrow> string \<Rightarrow> dl_outcome) \<Rightarrow> nat \<Rightarrow> dl_state \<Rightarrow> dl_state" where
  "finish output_dir old_plugins urlretrieve k s =
     (if k < length (threads s)
      then download_plugin output_dir old_plugins urlretrieve (threads s ! k)
             (s\<lparr>threads := take k (threads s) @ drop (Suc k) (threads s)\<rparr>)
      else s)"

text \<open>
  The threads make the call nondeterministic: the loop reads \<^verbatim>\<open>downloads\<close> while workers
  started earlier may or may not have finished. A schedule fixes one interleaving: a list of
  actions, each a turn of the loop or the end of a running worker. An action that is not
  possible where it stands does nothing. When the schedule is used up, the loop runs to its
  end and \<^verbatim>\<open>thread.join()\<close> waits for every worker, so every schedule gives a complete
  run, and every complete run is the run of some schedule.
\<close>

datatype action = Dispatch | Finish nat

fun step ::
  "int \<Rightarrow> string \<Rightarrow> meta dict \<Rightarrow> (nat \<Rightarrow> string \<Rightarrow> string \<Rightarrow> dl_outcome) \<Rightarrow> action \<Rightarrow> dl_state \<Rightarrow> dl_state" where
  "step g_iLimitDownloads output_dir old_plugins urlretrieve Dispatch s =
     dispatch g_iLimitDownloads s"
| "step g_iLimitDownloads output_dir old_plugins urlretrieve (Finish k) s =
     finish output_dir old_plugins urlretrieve k s"

definition dl_start :: "plugin list \<Rightarrow> dl_state" where
  "dl_start plugins =
     \<lparr>todo = zip [0..<length plugins] plugins, threads = [], downloads = 0, error = 0,
      fail = [], succeed = [], calls = [], skipped = []\<rparr>"

definition dl_join ::
  "int \<Rightarrow> string \<Rightarrow> meta dict \<Rightarrow> (nat \<Rightarrow> string \<Rightarrow> string \<Rightarrow> dl_outcome) \<Rightarrow> dl_state \<Rightarrow> dl_state" where
  "dl_join g_iLimitDownloads output_dir old_plugins urlretrieve s =
     (let s' = (dispatch g_iLimitDownloads ^^ length (todo s)) s
      in fold (download_plugin output_dir old_plugins urlretrieve) (threads s') (s'\<lparr>threads := []\<rparr>))"

definition dl_run ::
  "int \<Rightarrow> (nat \<Rightarrow> string \<Rightarrow> string \<Rightarrow> dl_outcome) \<Rightarrow> action list \<Rightarrow> string \<Rightarrow> plugin list \<Rightarrow> meta dict \<Rightarrow> dl_state" where
  "dl_run g_iLimitDownloads urlretrieve sched output_dir plugins old_plugins =
     dl_join g_iLimitDownloads output_dir old_plugins urlretrieve
       (fold (step g_iLimitDownloads output_dir old_plugins urlretrieve) sched (dl_start plugins))"

text \<open>\<^verbatim>\<open>return error, fail, succeed\<close>.\<close>

definition download_plugins_concurrently ::
  "int \<Rightarrow> (nat \<Rightarrow> string \<Rightarrow> string \<Rightarrow> dl_outcome) \<Rightarrow> action list \<Rightarrow> string \<Rightarrow> plugin list \<Rightarrow> meta dict
     \<Rightarrow> nat \<times> plugin list \<times> meta dict" where
  "download_plugins_concurrently g_iLimitDownloads urlretrieve sched output_dir plugins old_plugins =
     (let s = dl_run g_iLimitDownloads urlretrieve sched output_dir plugins old_plugins
      in (error s, map snd (fail s), succeed s))"

subsection \<open>Requests to the catalog\<close>

text \<open>
  The two request templates of the module-level \<^verbatim>\<open>const_data\<close>. Their values are the
  integers of the template or the identifiers written into it. Both functions below take
  the template by reference (\<^verbatim>\<open>data = const_data['collection']\<close>) and write into it, so
  the template is state: each function takes it and returns it as the call leaves it.
\<close>

datatype pyval = PInt int | PStr string

type_synonym form = "pyval dict"

record templates =
  file_data :: form
  collection_data :: form

definition const_data :: templates where
  "const_data =
     \<lparr>file_data = [(''itemcount'', PInt 0), (''publishedfileids[0]'', PInt 0)],
      collection_data = [(''collectioncount'', PInt 0), (''publishedfileids[0]'', PInt 0)]\<rparr>"

text \<open>\<^verbatim>\<open>str(idx)\<close> for an index of \<^verbatim>\<open>enumerate\<close>.\<close>

definition digit :: "nat \<Rightarrow> char" where
  "digit d = ''0123456789'' ! d"

fun str_nat :: "nat \<Rightarrow> string" where
  "str_nat n = (if n < 10 then [digit n] else str_nat (n div 10) @ [digit (n mod 10)])"

declare str_nat.simps [simp del]

definition idx_key :: "nat \<Rightarrow> string" where
  "idx_key idx = ''publishedfileids['' @ str_nat idx @ '']''"

text \<open>\<^verbatim>\<open>for idx, id in enumerate(ids): data['publishedfileids[' + str(idx) + ']'] = id\<close>.\<close>

fun fill_ids :: "nat \<Rightarrow> string list \<Rightarrow> form \<Rightarrow> form" where
  "fill_ids idx [] data = data"
| "fill_ids idx (x # xs) data = fill_ids (Suc idx) xs (AList.update (idx_key idx) (PStr x) data)"

definition collection_request :: "form \<Rightarrow> string list \<Rightarrow> form" where
  "collection_request data collections_id_list =
     fill_ids 0 collections_id_list
       (AList.update ''collectioncount'' (PInt (int (length collections_id_list))) data)"

definition file_request :: "form \<Rightarrow> string list \<Rightarrow> form" where
  "file_request data plugins_id_list =
     fill_ids 0 plugins_id_list
       (AList.update ''itemcount'' (PInt (int (length plugins_id_list))) data)"

text \<open>
  \<^verbatim>\<open>urllib.parse.urlencode(data)\<close>: every key and every \<^verbatim>\<open>str(value)\<close> through
  \<^verbatim>\<open>quote_plus\<close>, joined by \<^verbatim>\<open>=\<close> and \<^verbatim>\<open>&\<close> in the order of the dictionary. A string
  is its bytes, which is what \<^verbatim>\<open>quote_plus\<close> escapes.
\<close>

definition hex_digit :: "nat \<Rightarrow> char" where
  "hex_digit d = ''0123456789ABCDEF'' ! d"

definition quote_char :: "char \<Rightarrow> string" where
  "quote_char c =
     (if c \<in> set ''ABCDEFGHIJKLMNOPQRSTUVWXYZabcdefghijklmnopqrstuvwxyz0123456789_.-~'' then [c]
      else if c = CHR '' '' then ''+''
      else [CHR ''%'', hex_digit (of_char c div 16), hex_digit (of_char c mod 16)])"

definition quote_plus :: "string \<Rightarrow> string" where
  "quote_plus s = concat (map quote_char s)"

definition str_val :: "pyval \<Rightarrow> string" where
  "str_val v =
     (case v of
        PInt i \<Rightarrow> (if i < 0 then ''-'' @ str_nat (nat (- i)) else str_nat (nat i))
      | PStr s \<Rightarrow> s)"

fun join_amp :: "string list \<Rightarrow> string" where
  "join_amp [] = []"
| "join_amp [x] = x"
| "join_amp (x # y # ys) = x @ ''&'' @ join_amp (y # ys)"

definition urlencode :: "form \<Rightarrow> string" where
  "urlencode data = join_amp (map (\<lambda>(k, v). quote_plus k @ ''='' @ quote_plus (str_val v)) data)"

text \<open>
  What \<^verbatim>\<open>urlopen\<close> and the reading of its answer do for one request: an answer, an
  \<^verbatim>\<open>HTTPError\<close>, a \<^verbatim>\<open>URLError\<close> (with its \<^verbatim>\<open>reason\<close> when that is a string: the handler
  concatenates it to a string, which raises \<^verbatim>\<open>TypeError\<close> for any other reason), or
  another exception, which nothing catches. The catalog is given the dictionary the program
  encodes; the bytes it receives are \<open>urlencode\<close> of it.
\<close>

datatype 'a response = Answer 'a | RaiseHTTPError int | RaiseURLError "string option" | RaiseOther

text \<open>The exception object a function returns as \<^verbatim>\<open>error\<close>, and the exceptions that escape.\<close>

datatype err = HTTPErr int | URLErr string

datatype exn = TypeError | NameError string | KeyError string | RecursionError | Uncaught

subsection \<open>get\_plugins\_id\_from\_collections\_list\<close>

text \<open>
  A child of a collection is its \<^verbatim>\<open>filetype\<close> and its \<^verbatim>\<open>publishedfileid\<close>; a record of
  \<^verbatim>\<open>collectiondetails\<close> is its \<^verbatim>\<open>publishedfileid\<close> and its \<^verbatim>\<open>children\<close>, when it has the
  key.
\<close>

type_synonym child = "int \<times> string"

type_synonym collection = "string \<times> child list option"

text \<open>The loop over \<^verbatim>\<open>collection['children']\<close>, on the two lists it appends to.\<close>

fun scan_children :: "child list \<Rightarrow> string list \<times> string list \<Rightarrow> string list \<times> string list" where
  "scan_children [] acc = acc"
| "scan_children ((filetype, pid) # items) (plugins_id_list, sub_collection) =
     scan_children items
       (if filetype = 0 then (plugins_id_list @ [pid], sub_collection)
        else if filetype = 2 then (plugins_id_list, sub_collection @ [pid])
        else (plugins_id_list, sub_collection))"

text \<open>The loop over \<^verbatim>\<open>collectiondetails\<close>, on \<open>(valid_collections, plugins_id_list, sub_collection)\<close>.\<close>

fun scan_collections ::
  "collection list \<Rightarrow> string list \<times> string list \<times> string list \<Rightarrow> string list \<times> string list \<times> string list" where
  "scan_collections [] acc = acc"
| "scan_collections ((pid, None) # rest) acc = scan_collections rest acc"
| "scan_collections ((pid, Some children) # rest) (valid_collections, plugins_id_list, sub_collection) =
     scan_collections rest
       (case scan_children children (plugins_id_list, sub_collection) of
          (plugins_id_list', sub_collection') \<Rightarrow>
            (valid_collections @ [pid], plugins_id_list', sub_collection'))"

text \<open>
  The function calls itself on the sub-collections it found, with nothing that bounds the
  depth. The first argument is the number of nested calls that are still possible: \<open>None\<close>
  says that the nesting did not end within it. CPython raises \<^verbatim>\<open>RecursionError\<close> when the
  nesting reaches its recursion limit; a call that gives \<open>None\<close> for every number never
  returns on any stack. The result is the template as the call leaves it, and either an
  exception that escapes or the triple \<open>(error, plugins_id_list, valid_collections)\<close>. The
  valid collections of the nested call are dropped (\<^verbatim>\<open>_\<close>).
\<close>

fun get_plugins_id_from_collections_list ::
  "nat \<Rightarrow> (form \<Rightarrow> collection list response) \<Rightarrow> form \<Rightarrow> string list
     \<Rightarrow> (form \<times> (exn + err option \<times> string list \<times> string list)) option" where
  "get_plugins_id_from_collections_list 0 urlopen data collections_id_list = None"
| "get_plugins_id_from_collections_list (Suc depth) urlopen data collections_id_list =
     (let data' = collection_request data collections_id_list in
      case urlopen data' of
        RaiseHTTPError code \<Rightarrow> Some (data', Inr (Some (HTTPErr code), [], []))
      | RaiseURLError None \<Rightarrow> Some (data', Inl TypeError)
      | RaiseURLError (Some reason) \<Rightarrow> Some (data', Inr (Some (URLErr reason), [], []))
      | RaiseOther \<Rightarrow> Some (data', Inl Uncaught)
      | Answer details \<Rightarrow>
          (case scan_collections details ([], [], []) of
             (valid_collections, plugins_id_list, sub_collection) \<Rightarrow>
               if sub_collection \<noteq> [] then
                 (case get_plugins_id_from_collections_list depth urlopen data' sub_collection of
                    None \<Rightarrow> None
                  | Some (data'', Inl x) \<Rightarrow> Some (data'', Inl x)
                  | Some (data'', Inr (error_sub, plugins_id_list_temp, _)) \<Rightarrow>
                      Some (data'', Inr (error_sub,
                        if error_sub = None then plugins_id_list @ plugins_id_list_temp
                        else plugins_id_list,
                        valid_collections)))
               else Some (data', Inr (None, plugins_id_list, valid_collections))))"

subsection \<open>get\_plugins\_info\<close>

definition get_plugins_info ::
  "(form \<Rightarrow> plugin list response) \<Rightarrow> form \<Rightarrow> string list \<Rightarrow> form \<times> (exn + err option \<times> plugin list)" where
  "get_plugins_info urlopen data plugins_id_list =
     (let data' = file_request data plugins_id_list in
      case urlopen data' of
        RaiseHTTPError code \<Rightarrow> (data', Inr (Some (HTTPErr code), []))
      | RaiseURLError None \<Rightarrow> (data', Inl TypeError)
      | RaiseURLError (Some reason) \<Rightarrow> (data', Inr (Some (URLErr reason), []))
      | RaiseOther \<Rightarrow> (data', Inl Uncaught)
      | Answer details \<Rightarrow> (data', Inr (None, details)))"

subsection \<open>A catalog that answers what it is asked\<close>

text \<open>
  The catalog is not part of the program. Where a property needs one, it is a table from
  collection identifiers to children (\<open>None\<close> for a collection it gives no \<^verbatim>\<open>children\<close>
  for) that reads the count and the first so many identifiers of the request and answers
  with one record for each, in order.
\<close>

definition requested :: "string \<Rightarrow> form \<Rightarrow> string list" where
  "requested count_key data =
     (case map_of data count_key of
        Some (PInt n) \<Rightarrow>
          map (\<lambda>i. case map_of data (idx_key i) of Some (PStr x) \<Rightarrow> x | _ \<Rightarrow> []) [0..<nat n]
      | _ \<Rightarrow> [])"

definition serve :: "(string \<Rightarrow> child list option) \<Rightarrow> form \<Rightarrow> collection list response" where
  "serve cat data = Answer (map (\<lambda>c. (c, cat c)) (requested ''collectioncount'' data))"

text \<open>
  The collections a resolution starting from \<open>roots\<close> can reach, and the files they
  reference: what the nesting of the catalog says the result should hold.
\<close>

inductive_set reach :: "(string \<Rightarrow> child list option) \<Rightarrow> string set \<Rightarrow> string set"
  for cat :: "string \<Rightarrow> child list option" and roots :: "string set" where
  root: "c \<in> roots \<Longrightarrow> c \<in> reach cat roots"
| sub: "c \<in> reach cat roots \<Longrightarrow> cat c = Some children \<Longrightarrow> (2, x) \<in> set children
        \<Longrightarrow> x \<in> reach cat roots"

definition leaves :: "(string \<Rightarrow> child list option) \<Rightarrow> string set \<Rightarrow> string set" where
  "leaves cat roots = {a. \<exists>c \<in> reach cat roots. \<exists>children. cat c = Some children \<and> (0, a) \<in> set children}"

text \<open>The files and the sub-collections a record names, as the two scans collect them.\<close>

definition child_files :: "child list option \<Rightarrow> string list" where
  "child_files children =
     (case children of None \<Rightarrow> [] | Some items \<Rightarrow> map snd (filter (\<lambda>x. fst x = 0) items))"

definition child_subs :: "child list option \<Rightarrow> string list" where
  "child_subs children =
     (case children of None \<Rightarrow> [] | Some items \<Rightarrow> map snd (filter (\<lambda>x. fst x = 2) items))"

text \<open>One level of the nesting: the sub-collections and the files the collections of a set name.\<close>

definition direct_subs :: "(string \<Rightarrow> child list option) \<Rightarrow> string set \<Rightarrow> string set" where
  "direct_subs cat R = {x. \<exists>c \<in> R. \<exists>children. cat c = Some children \<and> (2, x) \<in> set children}"

definition direct_files :: "(string \<Rightarrow> child list option) \<Rightarrow> string set \<Rightarrow> string set" where
  "direct_files cat R = {a. \<exists>c \<in> R. \<exists>children. cat c = Some children \<and> (0, a) \<in> set children}"

definition level_files :: "(string \<Rightarrow> child list option) \<Rightarrow> string list \<Rightarrow> string list" where
  "level_files cat ids = concat (map (\<lambda>c. child_files (cat c)) ids)"

definition level_subs :: "(string \<Rightarrow> child list option) \<Rightarrow> string list \<Rightarrow> string list" where
  "level_subs cat ids = concat (map (\<lambda>c. child_subs (cat c)) ids)"

definition level_valid :: "(string \<Rightarrow> child list option) \<Rightarrow> string list \<Rightarrow> string list" where
  "level_valid cat ids = filter (\<lambda>c. cat c \<noteq> None) ids"

text \<open>
  Three small catalogs: a collection nested in another, a file that two collections of one
  nesting both name, and a collection that names itself as its sub-collection.
\<close>

definition nested_cat :: "string \<Rightarrow> child list option" where
  "nested_cat c = (if c = ''1'' then Some [(2, ''2'')] else if c = ''2'' then Some [(0, ''A'')] else None)"

definition shared_cat :: "string \<Rightarrow> child list option" where
  "shared_cat c =
     (if c = ''1'' then Some [(0, ''A''), (2, ''2'')] else if c = ''2'' then Some [(0, ''A'')] else None)"

definition cyclic_cat :: "string \<Rightarrow> child list option" where
  "cyclic_cat c = (if c = ''1'' then Some [(2, ''1'')] else None)"

definition depth_rank :: "string \<Rightarrow> nat" where
  "depth_rank c = (if c = ''1'' then 1 else 0)"

subsection \<open>main\<close>

text \<open>
  The state file \<^verbatim>\<open>addons.lst\<close> as \<^verbatim>\<open>json.load\<close> gives it and \<^verbatim>\<open>json.dump\<close> writes it: a
  dictionary that may have the key \<^verbatim>\<open>collections\<close> and may have the key \<^verbatim>\<open>plugins\<close>.
\<close>

record saved_data =
  sd_collections :: "string list option"
  sd_plugins :: "meta dict option"

text \<open>
  How a run of \<^verbatim>\<open>main\<close> ends: after the message that every plugin was downloaded, after the
  message that it gave up, before the downloads because an \<^verbatim>\<open>error\<close> was set, or with an
  exception nothing catches. With it, the number of calls of
  \<^verbatim>\<open>download_plugins_concurrently\<close> and everything the run wrote to the state file, in
  order.
\<close>

datatype ending = Done | GivenUp | Stopped | Raised exn

record outcome =
  ending :: ending
  attempts :: nat
  writes :: "saved_data list"

text \<open>
  What is outside the program: the answers of the two endpoints, what \<^verbatim>\<open>urlretrieve\<close> does
  and how the threads interleave in the \<open>n\<close>-th call of \<^verbatim>\<open>download_plugins_concurrently\<close>,
  the order in which \<^verbatim>\<open>list(set(xs))\<close> lists the elements of \<open>xs\<close>, and the number of
  nested calls the interpreter allows.
\<close>

record world =
  collection_api :: "form \<Rightarrow> collection list response"
  file_api :: "form \<Rightarrow> plugin list response"
  urlretrieve_at :: "nat \<Rightarrow> nat \<Rightarrow> string \<Rightarrow> string \<Rightarrow> dl_outcome"
  schedule_at :: "nat \<Rightarrow> action list"
  set_order :: "string list \<Rightarrow> string list"
  recursion_limit :: nat

text \<open>
  \<^verbatim>\<open>list(set(xs))\<close>: the elements of \<open>xs\<close>, each once, in the order the world gives; where
  that is not such a list, the order of first occurrence.
\<close>

definition list_set :: "world \<Rightarrow> string list \<Rightarrow> string list" where
  "list_set w xs =
     (let ys = set_order w xs in if set ys = set xs \<and> distinct ys then ys else remdups xs)"

text \<open>\<^verbatim>\<open>d.update(u)\<close>.\<close>

definition dict_update :: "'v dict \<Rightarrow> 'v dict \<Rightarrow> 'v dict" where
  "dict_update d u = fold (\<lambda>kv. AList.update (fst kv) (snd kv)) u d"

text \<open>
  The \<^verbatim>\<open>while plugins_info and num_download_failures < 5\<close> loop and the two messages after
  it. \<open>n\<close> counts the calls of \<^verbatim>\<open>download_plugins_concurrently\<close> made so far and \<open>ws\<close> is
  what has been written to the state file. \<^verbatim>\<open>saved_data['plugins']\<close> raises \<^verbatim>\<open>KeyError\<close>
  when the key is missing.
\<close>

function download_loop ::
  "int \<Rightarrow> world \<Rightarrow> string \<Rightarrow> meta dict \<Rightarrow> nat \<Rightarrow> plugin list \<Rightarrow> saved_data \<Rightarrow> nat
     \<Rightarrow> saved_data list \<Rightarrow> outcome" where
  "download_loop g_iLimitDownloads w output_dir old_plugins num_download_failures plugins_info sd n ws =
     (if plugins_info \<noteq> [] \<and> num_download_failures < 5 then
        (case download_plugins_concurrently g_iLimitDownloads (urlretrieve_at w n) (schedule_at w n)
                output_dir plugins_info old_plugins of
           (error_n, plugins_info', succeed_temp) \<Rightarrow>
             (case sd_plugins sd of
                None \<Rightarrow> \<lparr>ending = Raised (KeyError ''plugins''), attempts = Suc n, writes = ws\<rparr>
              | Some saved_plugins \<Rightarrow>
                  (let sd' = sd\<lparr>sd_plugins := Some (dict_update saved_plugins succeed_temp)\<rparr>
                   in download_loop g_iLimitDownloads w output_dir old_plugins
                        (if error_n > 0 then Suc num_download_failures else 0)
                        plugins_info' sd' (Suc n) (ws @ [sd']))))
      else \<lparr>ending = (if num_download_failures \<noteq> 0 then GivenUp else Done),
             attempts = n, writes = ws\<rparr>)"
  by pat_completeness auto

text \<open>
  From \<^verbatim>\<open>saved_data['plugins'] = {}\<close> to the end of \<^verbatim>\<open>main\<close>: the details of the plugins are
  fetched and, without error, the loop runs. \<open>data\<close> is the request template as the calls
  before left it.
\<close>

definition fetch_and_download ::
  "int \<Rightarrow> world \<Rightarrow> string \<Rightarrow> meta dict \<Rightarrow> saved_data \<Rightarrow> form \<Rightarrow> string list \<Rightarrow> outcome" where
  "fetch_and_download g_iLimitDownloads w output_dir old_plugins sd data plugins_id_list =
     (let sd' = sd\<lparr>sd_plugins := Some []\<rparr> in
      case get_plugins_info (file_api w) data plugins_id_list of
        (data', Inl x) \<Rightarrow> \<lparr>ending = Raised x, attempts = 0, writes = []\<rparr>
      | (data', Inr (Some e, plugins_info)) \<Rightarrow> \<lparr>ending = Stopped, attempts = 0, writes = []\<rparr>
      | (data', Inr (None, plugins_info)) \<Rightarrow>
          download_loop g_iLimitDownloads w output_dir old_plugins 0 plugins_info sd' 0 [])"

text \<open>
  The block under the first \<^verbatim>\<open>if error is None\<close>. Neither \<^verbatim>\<open>print_deprecated_info\<close> nor
  \<^verbatim>\<open>deletePlugins\<close> is defined in the module or imported into it, so reaching the first of
  the two calls raises \<^verbatim>\<open>NameError\<close>.
\<close>

definition reconcile ::
  "int \<Rightarrow> world \<Rightarrow> string \<Rightarrow> saved_data \<Rightarrow> string list \<Rightarrow> string list \<Rightarrow> outcome" where
  "reconcile g_iLimitDownloads w output_dir sd plugins_id_list valid_collections =
     (let sd' = sd\<lparr>sd_collections := Some valid_collections\<rparr> in
      case sd_plugins sd' of
        Some old_plugins \<Rightarrow>
          (let deprecated_plugins = list_set w (plugins_to_remove plugins_id_list old_plugins) in
           if deprecated_plugins \<noteq> [] then
             (case get_plugins_info (file_api w) (file_data const_data) deprecated_plugins of
                (data', Inl x) \<Rightarrow> \<lparr>ending = Raised x, attempts = 0, writes = []\<rparr>
              | (data', Inr (None, deprecated_plugin_info)) \<Rightarrow>
                  \<lparr>ending = Raised (NameError ''print_deprecated_info''), attempts = 0, writes = []\<rparr>
              | (data', Inr (Some e, deprecated_plugin_info)) \<Rightarrow>
                  fetch_and_download g_iLimitDownloads w output_dir old_plugins sd' data'
                    (list_set w (plugins_id_list @ keys old_plugins)))
           else fetch_and_download g_iLimitDownloads w output_dir old_plugins sd' (file_data const_data)
                  (list_set w (plugins_id_list @ keys old_plugins)))
      | None \<Rightarrow>
          fetch_and_download g_iLimitDownloads w output_dir [] sd' (file_data const_data) plugins_id_list)"

text \<open>
  \<^verbatim>\<open>main\<close> from the return of \<^verbatim>\<open>init\<close> and \<^verbatim>\<open>load_saved_data\<close>: \<open>init_error\<close>, \<open>output_dir\<close>
  and \<open>argv_collections\<close> are what \<^verbatim>\<open>init\<close> returned and \<open>sd\<close> is the content of the state
  file (no key when there is no file). A resolver that does not return within the recursion
  limit raises \<^verbatim>\<open>RecursionError\<close>.
\<close>

definition main ::
  "int \<Rightarrow> world \<Rightarrow> nat \<Rightarrow> string \<Rightarrow> string list \<Rightarrow> saved_data \<Rightarrow> outcome" where
  "main g_iLimitDownloads w init_error output_dir argv_collections sd =
     (if init_error \<noteq> 0 then \<lparr>ending = Stopped, attempts = 0, writes = []\<rparr>
      else
        (let collections_id_list =
               (case sd_collections sd of
                  None \<Rightarrow> argv_collections
                | Some saved \<Rightarrow>
                    if argv_collections = [] then saved else list_set w (argv_collections @ saved))
         in if collections_id_list = [] then \<lparr>ending = Stopped, attempts = 0, writes = []\<rparr>
            else
              (case get_plugins_id_from_collections_list (recursion_limit w) (collection_api w)
                      (collection_data const_data) collections_id_list of
                 None \<Rightarrow> \<lparr>ending = Raised RecursionError, attempts = 0, writes = []\<rparr>
               | Some (data', Inl x) \<Rightarrow> \<lparr>ending = Raised x, attempts = 0, writes = []\<rparr>
               | Some (data', Inr (Some e, plugins_id_list, valid_collections)) \<Rightarrow>
                   \<lparr>ending = Stopped, attempts = 0, writes = []\<rparr>
               | Some (data', Inr (None, plugins_id_list, valid_collections)) \<Rightarrow>
                   reconcile g_iLimitDownloads w output_dir sd plugins_id_list valid_collections)))"

text \<open>
  The \<open>k\<close>-th call of \<^verbatim>\<open>download_plugins_concurrently\<close> of a loop that is at its \<open>n\<close>-th call
  with the batch \<open>plugins_info\<close>, and the batch that call is given: each call is given the
  failed list of the one before.
\<close>

definition attempt ::
  "int \<Rightarrow> world \<Rightarrow> string \<Rightarrow> meta dict \<Rightarrow> plugin list \<Rightarrow> nat \<Rightarrow> nat \<times> plugin list \<times> meta dict" where
  "attempt g_iLimitDownloads w output_dir old_plugins plugins_info n =
     download_plugins_concurrently g_iLimitDownloads (urlretrieve_at w n) (schedule_at w n)
       output_dir plugins_info old_plugins"

fun batch_of ::
  "int \<Rightarrow> world \<Rightarrow> string \<Rightarrow> meta dict \<Rightarrow> plugin list \<Rightarrow> nat \<Rightarrow> nat \<Rightarrow> plugin list" where
  "batch_of g_iLimitDownloads w output_dir old_plugins plugins_info n 0 = plugins_info"
| "batch_of g_iLimitDownloads w output_dir old_plugins plugins_info n (Suc k) =
     batch_of g_iLimitDownloads w output_dir old_plugins
       (fst (snd (attempt g_iLimitDownloads w output_dir old_plugins plugins_info n))) (Suc n) k"

text \<open>
  The list \<^verbatim>\<open>main\<close> hands to the resolver, and what \<^verbatim>\<open>saved_data['plugins']\<close> holds after the
  \<open>k\<close>-th further call of \<^verbatim>\<open>download_plugins_concurrently\<close> of a loop that is at its \<open>n\<close>-th
  call with the batch \<open>plugins_info\<close> and holds \<open>saved\<close>.
\<close>

definition collections_asked :: "world \<Rightarrow> string list \<Rightarrow> saved_data \<Rightarrow> string list" where
  "collections_asked w argv_collections sd =
     (case sd_collections sd of
        None \<Rightarrow> argv_collections
      | Some saved \<Rightarrow>
          if argv_collections = [] then saved else list_set w (argv_collections @ saved))"

fun saved_after ::
  "int \<Rightarrow> world \<Rightarrow> string \<Rightarrow> meta dict \<Rightarrow> plugin list \<Rightarrow> meta dict \<Rightarrow> nat \<Rightarrow> nat \<Rightarrow> meta dict" where
  "saved_after g_iLimitDownloads w output_dir old_plugins plugins_info saved n 0 =
     dict_update saved (snd (snd (attempt g_iLimitDownloads w output_dir old_plugins plugins_info n)))"
| "saved_after g_iLimitDownloads w output_dir old_plugins plugins_info saved n (Suc k) =
     saved_after g_iLimitDownloads w output_dir old_plugins
       (fst (snd (attempt g_iLimitDownloads w output_dir old_plugins plugins_info n)))
       (dict_update saved (snd (snd (attempt g_iLimitDownloads w output_dir old_plugins plugins_info n))))
       (Suc n) k"

subsection \<open>What a download run keeps true\<close>

text \<open>
  The positions still to be handled, the positions of the running workers, and the positions
  that have left a trace in \<open>fail\<close> or \<open>calls\<close>.
\<close>

definition inv_cnt :: "int \<Rightarrow> dl_state \<Rightarrow> bool" where
  "inv_cnt L s \<longleftrightarrow>
     error s = length (fail s) \<and> downloads s \<le> length (calls s)
     \<and> (skipped s \<noteq> [] \<longrightarrow> L \<noteq> 0 \<and> L \<le> int (downloads s))"

definition tpos :: "dl_state \<Rightarrow> nat set" where
  "tpos s = fst ` set (todo s)"

definition rpos :: "dl_state \<Rightarrow> nat set" where
  "rpos s = fst ` set (threads s)"

definition dpos :: "dl_state \<Rightarrow> nat set" where
  "dpos s = fst ` set (fail s) \<union> fst ` set (calls s)"

definition inv_pos :: "(nat \<times> plugin) list \<Rightarrow> dl_state \<Rightarrow> bool" where
  "inv_pos batch s \<longleftrightarrow>
     distinct (map fst (todo s))
     \<and> tpos s \<inter> (rpos s \<union> set (skipped s) \<union> dpos s) = {}
     \<and> (rpos s \<union> dpos s) \<inter> set (skipped s) = {}
     \<and> set (todo s) \<subseteq> set batch \<and> set (threads s) \<subseteq> set batch"

definition excl :: "dl_state \<Rightarrow> nat set" where
  "excl s = tpos s \<union> set (skipped s)"

definition inv_url :: "(nat \<times> plugin) list \<Rightarrow> dl_state \<Rightarrow> bool" where
  "inv_url batch s \<longleftrightarrow>
     (\<forall>ip \<in> set (fail s). ip \<in> set batch \<and> file_url (snd ip) \<noteq> None)
     \<and> (\<forall>c \<in> set (calls s). \<exists>p. (fst c, p) \<in> set batch \<and> file_url p = Some (fst (snd c)))
     \<and> (\<forall>k \<in> set (keys (succeed s)). \<exists>ip \<in> set batch.
           fst ip \<notin> excl s \<and> file_url (snd ip) \<noteq> None \<and> publishedfileid (snd ip) = Some k)"

text \<open>
  The cap is reached and every position of \<open>T\<close> is either still to be handled or has been
  passed over.
\<close>

definition capped :: "int \<Rightarrow> nat set \<Rightarrow> dl_state \<Rightarrow> bool" where
  "capped L T s \<longleftrightarrow> L \<le> int (downloads s) \<and> T \<subseteq> tpos s \<union> set (skipped s)"

text \<open>Plugins for the examples below.\<close>

definition mk_plugin :: "string \<Rightarrow> string \<Rightarrow> int \<Rightarrow> string option \<Rightarrow> plugin" where
  "mk_plugin pid t u url = \<lparr>publishedfileid = Some pid, title = Some t, time_updated = Some u, file_url = url\<rparr>"


text \<open>
  Worlds for the examples below: the catalog answers from a table and knows no file details;
  every download works, or every download but that of \<open>u1\<close> is answered with status 503. The
  workers run one after the other once the loop is through.
\<close>

definition empty_cat :: "string \<Rightarrow> child list option" where
  "empty_cat c = (if c = ''1'' then Some [] else None)"

definition one_file_cat :: "string \<Rightarrow> child list option" where
  "one_file_cat c = (if c = ''1'' then Some [(0, ''7'')] else None)"

definition quiet_world :: "(string \<Rightarrow> child list option) \<Rightarrow> world" where
  "quiet_world cat =
     \<lparr>collection_api = serve cat, file_api = (\<lambda>_. Answer []),
      urlretrieve_at = (\<lambda>_ _ _ _. Retrieved), schedule_at = (\<lambda>_. []),
      set_order = (\<lambda>xs. xs), recursion_limit = 1000\<rparr>"

definition flaky_world :: world where
  "flaky_world =
     \<lparr>collection_api = serve empty_cat, file_api = (\<lambda>_. Answer []),
      urlretrieve_at = (\<lambda>_ _ url _. if url = ''u1'' then Retrieved else HTTPError 503),
      schedule_at = (\<lambda>_. []), set_order = (\<lambda>xs. xs), recursion_limit = 1000\<rparr>"

definition busy_world :: world where
  "busy_world =
     \<lparr>collection_api = serve one_file_cat,
      file_api = (\<lambda>_. Answer [mk_plugin ''7'' ''g'' 5 (Some ''u7'')]),
      urlretrieve_at = (\<lambda>_ _ _ _. Retrieved), schedule_at = (\<lambda>_. []),
      set_order = (\<lambda>xs. xs), recursion_limit = 1000\<rparr>"

definition two_plugins :: "plugin list" where
  "two_plugins = [mk_plugin ''1'' ''a'' 5 (Some ''u1''), mk_plugin ''2'' ''b'' 5 (Some ''u2'')]"

section \<open>Properties\<close>

subsection \<open>plugins\_to\_remove\<close>

lemma plugins_to_remove_loop_filter:
  "plugins_to_remove_loop cur ks acc = acc @ filter (\<lambda>k. k \<notin> set cur) ks"
  by (induction ks arbitrary: acc) simp_all

lemma plugins_to_remove_filter:
  "plugins_to_remove cur old = filter (\<lambda>k. k \<notin> set cur) (keys old)"
  by (simp add: plugins_to_remove_def plugins_to_remove_loop_filter)

text \<open>
  C7. For every current identifier list and every persisted plugin dictionary,
  \<open>plugins_to_remove\<close> returns exactly the persisted keys that are absent from the current
  list (in the dictionary's key order, each key once when the dictionary's keys are
  distinct), and it returns nothing when the current list holds every persisted key. The
  function is a value of its two arguments alone: the source reads them and appends to a
  list of its own, and does no input or output.
\<close>

theorem plugins_to_remove_exact:
  "set (plugins_to_remove cur old) = set (keys old) - set cur
   \<and> (distinct (keys old) \<longrightarrow> distinct (plugins_to_remove cur old))
   \<and> (set (keys old) \<subseteq> set cur \<longrightarrow> plugins_to_remove cur old = [])"
  by (auto simp: plugins_to_remove_filter filter_empty_conv)

theorem plugins_to_remove_exact_witness:
  "set (plugins_to_remove [''11'', ''22''] [(''22'', ()), (''33'', ()), (''44'', ())])
     = set [''22'', ''33'', ''44''] - set [''11'', ''22'']
   \<and> distinct (plugins_to_remove [''11'', ''22''] [(''22'', ()), (''33'', ()), (''44'', ())])
   \<and> plugins_to_remove [''11'', ''22'', ''33''] [(''22'', ()), (''33'', ())] = []"
  using plugins_to_remove_exact [of "[''11'', ''22'']" "[(''22'', ()), (''33'', ()), (''44'', ())]"]
    plugins_to_remove_exact [of "[''11'', ''22'', ''33'']" "[(''22'', ()), (''33'', ())]"]
  by (simp add: keys_def)


subsection \<open>download\_plugins\_concurrently\<close>

lemma download_plugin_frame [simp]:
  "todo (download_plugin od old net ip s) = todo s"
  "threads (download_plugin od old net ip s) = threads s"
  "skipped (download_plugin od old net ip s) = skipped s"
  by (simp_all add: download_plugin_def Let_def split: option.splits bool.splits dl_outcome.splits)

lemma inv_cnt_download_plugin:
  "inv_cnt L s \<Longrightarrow> inv_cnt L (download_plugin od old net ip s)"
  by (auto simp: inv_cnt_def download_plugin_def Let_def split: option.splits bool.splits dl_outcome.splits)

lemma inv_cnt_dispatch: "inv_cnt L s \<Longrightarrow> inv_cnt L (dispatch L s)"
  by (auto simp: inv_cnt_def dispatch_def split: list.splits)

lemma inv_cnt_threads [simp]: "inv_cnt L (s\<lparr>threads := ts\<rparr>) = inv_cnt L s"
  by (simp add: inv_cnt_def)

lemma inv_cnt_finish: "inv_cnt L s \<Longrightarrow> inv_cnt L (finish od old net k s)"
  by (simp add: finish_def inv_cnt_download_plugin)

lemma inv_cnt_step: "inv_cnt L s \<Longrightarrow> inv_cnt L (step L od old net a s)"
  by (cases a) (simp_all add: inv_cnt_dispatch inv_cnt_finish)

lemma inv_cnt_steps: "inv_cnt L s \<Longrightarrow> inv_cnt L (fold (step L od old net) as s)"
  by (induction as arbitrary: s) (simp_all add: inv_cnt_step)

lemma inv_cnt_dispatches: "inv_cnt L s \<Longrightarrow> inv_cnt L ((dispatch L ^^ n) s)"
  by (induction n) (simp_all add: inv_cnt_dispatch)

lemma inv_cnt_workers:
  "inv_cnt L s \<Longrightarrow> inv_cnt L (fold (download_plugin od old net) ts s)"
  by (induction ts arbitrary: s) (simp_all add: inv_cnt_download_plugin)

lemma inv_cnt_join: "inv_cnt L s \<Longrightarrow> inv_cnt L (dl_join L od old net s)"
  unfolding dl_join_def Let_def
  by (simp add: inv_cnt_workers inv_cnt_dispatches)

lemma inv_cnt_run: "inv_cnt L (dl_run L net as od plugins old)"
  unfolding dl_run_def
  by (intro inv_cnt_join inv_cnt_steps) (simp add: inv_cnt_def dl_start_def)

lemma dispatch_cases:
  obtains (nil) "todo s = []" "dispatch L s = s"
  | (skip) ip rest where "todo s = ip # rest" "L \<noteq> 0" "L \<le> int (downloads s)"
      "dispatch L s = s\<lparr>todo := rest, skipped := skipped s @ [fst ip]\<rparr>"
  | (start) ip rest where "todo s = ip # rest"
      "dispatch L s = s\<lparr>todo := rest, threads := threads s @ [ip]\<rparr>"
proof (cases "todo s")
  case Nil
  then show ?thesis by (intro nil) (simp_all add: dispatch_def)
next
  case (Cons ip rest)
  show ?thesis
  proof (cases "int (downloads s) \<ge> L \<and> L \<noteq> 0")
    case True
    with Cons show ?thesis by (intro skip[of ip rest]) (simp_all add: dispatch_def)
  next
    case False
    with Cons show ?thesis by (intro start[of ip rest]) (simp_all add: dispatch_def)
  qed
qed

lemma dpos_download_plugin:
  "dpos (download_plugin od old net ip s) \<subseteq> insert (fst ip) (dpos s)"
  by (auto simp: dpos_def download_plugin_def Let_def
      split: option.splits bool.splits dl_outcome.splits)

lemma pos_download_plugin [simp]:
  "tpos (download_plugin od old net ip s) = tpos s"
  "rpos (download_plugin od old net ip s) = rpos s"
  by (simp_all add: tpos_def rpos_def)

lemma inv_pos_worker:
  assumes "inv_pos batch s" "fst ip \<notin> tpos s" "fst ip \<notin> set (skipped s)"
  shows "inv_pos batch (download_plugin od old net ip s)"
proof -
  let ?s' = "download_plugin od old net ip s"
  note sub = dpos_download_plugin[of od old net ip s]
  have a: "tpos s \<inter> (rpos s \<union> set (skipped s) \<union> dpos s) = {}"
    "(rpos s \<union> dpos s) \<inter> set (skipped s) = {}"
    using assms(1) by (simp_all add: inv_pos_def)
  have "tpos s \<inter> (rpos s \<union> set (skipped s) \<union> dpos ?s') = {}"
    using a(1) sub assms(2) by blast
  moreover have "(rpos s \<union> dpos ?s') \<inter> set (skipped s) = {}"
    using a(2) sub assms(3) by blast
  ultimately show ?thesis
    using assms(1) by (simp add: inv_pos_def)
qed

lemma inv_pos_dispatch:
  assumes "inv_pos batch s"
  shows "inv_pos batch (dispatch L s)"
proof (cases rule: dispatch_cases[of s L])
  case nil
  then show ?thesis using assms by simp
next
  case (skip ip rest)
  have a: "distinct (map fst (todo s))"
    "tpos s \<inter> (rpos s \<union> set (skipped s) \<union> dpos s) = {}"
    "(rpos s \<union> dpos s) \<inter> set (skipped s) = {}"
    "set (todo s) \<subseteq> set batch" "set (threads s) \<subseteq> set batch"
    using assms by (simp_all add: inv_pos_def)
  let ?s' = "dispatch L s"
  have e: "todo ?s' = rest" "threads ?s' = threads s" "rpos ?s' = rpos s" "dpos ?s' = dpos s"
    "set (skipped ?s') = insert (fst ip) (set (skipped s))"
    by (simp_all add: skip rpos_def dpos_def)
  have t: "tpos s = insert (fst ip) (tpos ?s')" "fst ip \<notin> tpos ?s'" "distinct (map fst rest)"
    "set rest \<subseteq> set batch"
    using a(1,4) by (simp_all add: tpos_def skip)
  have "tpos ?s' \<inter> (rpos s \<union> insert (fst ip) (set (skipped s)) \<union> dpos s) = {}"
    using a(2) t(1,2) by blast
  moreover have "(rpos s \<union> dpos s) \<inter> insert (fst ip) (set (skipped s)) = {}"
    using a(2,3) t(1) by blast
  ultimately show ?thesis
    unfolding inv_pos_def e using t(3,4) a(5) by simp
next
  case (start ip rest)
  have a: "distinct (map fst (todo s))"
    "tpos s \<inter> (rpos s \<union> set (skipped s) \<union> dpos s) = {}"
    "(rpos s \<union> dpos s) \<inter> set (skipped s) = {}"
    "set (todo s) \<subseteq> set batch" "set (threads s) \<subseteq> set batch"
    using assms by (simp_all add: inv_pos_def)
  let ?s' = "dispatch L s"
  have e: "todo ?s' = rest" "set (threads ?s') = insert ip (set (threads s))"
    "rpos ?s' = insert (fst ip) (rpos s)" "dpos ?s' = dpos s"
    "skipped ?s' = skipped s"
    by (simp_all add: start rpos_def dpos_def)
  have t: "tpos s = insert (fst ip) (tpos ?s')" "fst ip \<notin> tpos ?s'" "distinct (map fst rest)"
    "set rest \<subseteq> set batch" "ip \<in> set batch"
    using a(1,4) by (simp_all add: tpos_def start)
  have "tpos ?s' \<inter> (insert (fst ip) (rpos s) \<union> set (skipped s) \<union> dpos s) = {}"
    using a(2) t(1,2) by blast
  moreover have "(insert (fst ip) (rpos s) \<union> dpos s) \<inter> set (skipped s) = {}"
    using a(2,3) t(1) by blast
  ultimately show ?thesis
    unfolding inv_pos_def e using t(3,4,5) a(5) by simp
qed

lemma set_take_drop_subset: "set (take k xs @ drop (Suc k) xs) \<subseteq> set xs"
  by (auto dest: in_set_takeD in_set_dropD)

lemma inv_pos_threads_shrink:
  assumes "inv_pos batch s" "set ts \<subseteq> set (threads s)"
  shows "inv_pos batch (s\<lparr>threads := ts\<rparr>)"
proof -
  have a: "tpos s \<inter> (rpos s \<union> set (skipped s) \<union> dpos s) = {}"
    "(rpos s \<union> dpos s) \<inter> set (skipped s) = {}" "set (threads s) \<subseteq> set batch"
    using assms(1) by (simp_all add: inv_pos_def)
  let ?s' = "s\<lparr>threads := ts\<rparr>"
  have e: "tpos ?s' = tpos s" "dpos ?s' = dpos s" "rpos ?s' \<subseteq> rpos s"
    using assms(2) by (auto simp: tpos_def dpos_def rpos_def)
  have "tpos s \<inter> (rpos ?s' \<union> set (skipped s) \<union> dpos s) = {}"
    using a(1) e(3) by blast
  moreover have "(rpos ?s' \<union> dpos s) \<inter> set (skipped s) = {}"
    using a(2) e(3) by blast
  moreover have "set ts \<subseteq> set batch"
    using a(3) assms(2) by blast
  ultimately show ?thesis
    using assms(1) by (simp add: inv_pos_def e(1,2))
qed

lemma inv_pos_thread_fresh:
  assumes "inv_pos batch s" "ip \<in> set (threads s)"
  shows "fst ip \<notin> tpos s" "fst ip \<notin> set (skipped s)" "ip \<in> set batch"
proof -
  have a: "tpos s \<inter> (rpos s \<union> set (skipped s) \<union> dpos s) = {}"
    "(rpos s \<union> dpos s) \<inter> set (skipped s) = {}" "set (threads s) \<subseteq> set batch"
    using assms(1) by (simp_all add: inv_pos_def)
  have m: "fst ip \<in> rpos s"
    using assms(2) by (auto simp: rpos_def)
  show "fst ip \<notin> tpos s" using a(1) m by blast
  show "fst ip \<notin> set (skipped s)" using a(2) m by blast
  show "ip \<in> set batch" using a(3) assms(2) by blast
qed

lemma inv_pos_finish:
  assumes "inv_pos batch s"
  shows "inv_pos batch (finish od old net k s)"
proof (cases "k < length (threads s)")
  case False
  then show ?thesis using assms by (simp add: finish_def)
next
  case True
  let ?ts = "take k (threads s) @ drop (Suc k) (threads s)"
  have m: "threads s ! k \<in> set (threads s)"
    using True by simp
  have "inv_pos batch (s\<lparr>threads := ?ts\<rparr>)"
    using assms set_take_drop_subset by (rule inv_pos_threads_shrink)
  moreover have "fst (threads s ! k) \<notin> tpos (s\<lparr>threads := ?ts\<rparr>)"
    "fst (threads s ! k) \<notin> set (skipped (s\<lparr>threads := ?ts\<rparr>))"
    using inv_pos_thread_fresh[OF assms m] by (simp_all add: tpos_def)
  ultimately have "inv_pos batch (download_plugin od old net (threads s ! k) (s\<lparr>threads := ?ts\<rparr>))"
    by (rule inv_pos_worker)
  then show ?thesis
    using True by (simp add: finish_def)
qed



lemma inv_pos_dispatches: "inv_pos batch s \<Longrightarrow> inv_pos batch ((dispatch L ^^ n) s)"
  by (induction n) (simp_all add: inv_pos_dispatch)



lemma inv_pos_start: "inv_pos (zip [0..<length plugins] plugins) (dl_start plugins)"
  by (simp add: inv_pos_def dl_start_def tpos_def rpos_def dpos_def)


lemma excl_download_plugin [simp]: "excl (download_plugin od old net ip s) = excl s"
  by (simp add: excl_def)

lemma excl_threads [simp]: "excl (s\<lparr>threads := ts\<rparr>) = excl s"
  by (simp add: excl_def tpos_def)

lemma excl_dispatch: "excl (dispatch L s) \<subseteq> excl s"
  by (cases rule: dispatch_cases[of s L]) (auto simp: excl_def tpos_def)

lemma keys_update: "set (keys (AList.update k v d)) = insert k (set (keys d))"
  using dom_update[of k v d] by (simp add: keys_def)

lemma inv_url_worker:
  assumes "inv_url batch s" "ip \<in> set batch" "fst ip \<notin> excl s"
  shows "inv_url batch (download_plugin od old net ip s)"
proof -
  let ?s' = "download_plugin od old net ip s"
  have f: "set (fail ?s') \<subseteq> set (fail s) \<union> (if file_url (snd ip) = None then {} else {ip})"
    by (auto simp: download_plugin_def Let_def split: option.splits bool.splits dl_outcome.splits)
  have c: "\<forall>c \<in> set (calls ?s'). c \<in> set (calls s) \<or> (fst c = fst ip \<and> file_url (snd ip) = Some (fst (snd c)))"
    by (auto simp: download_plugin_def Let_def split: option.splits bool.splits dl_outcome.splits)
  have k: "\<forall>k \<in> set (keys (succeed ?s')). k \<in> set (keys (succeed s))
              \<or> (file_url (snd ip) \<noteq> None \<and> publishedfileid (snd ip) = Some k)"
    by (auto simp: download_plugin_def Let_def keys_update
        split: option.splits bool.splits dl_outcome.splits)
  have 1: "\<forall>ip \<in> set (fail ?s'). ip \<in> set batch \<and> file_url (snd ip) \<noteq> None"
    using assms(1,2) f unfolding inv_url_def by (auto split: if_splits)
  have 2: "\<forall>c \<in> set (calls ?s'). \<exists>p. (fst c, p) \<in> set batch \<and> file_url p = Some (fst (snd c))"
  proof
    fix c assume "c \<in> set (calls ?s')"
    with c have "c \<in> set (calls s) \<or> (fst c = fst ip \<and> file_url (snd ip) = Some (fst (snd c)))"
      by blast
    then show "\<exists>p. (fst c, p) \<in> set batch \<and> file_url p = Some (fst (snd c))"
    proof
      assume "c \<in> set (calls s)"
      then show ?thesis using assms(1) unfolding inv_url_def by blast
    next
      assume h: "fst c = fst ip \<and> file_url (snd ip) = Some (fst (snd c))"
      have "(fst ip, snd ip) \<in> set batch" using assms(2) by simp
      then show ?thesis using h by metis
    qed
  qed
  have 3: "\<forall>k \<in> set (keys (succeed ?s')). \<exists>ip \<in> set batch.
           fst ip \<notin> excl ?s' \<and> file_url (snd ip) \<noteq> None \<and> publishedfileid (snd ip) = Some k"
  proof
    fix k assume "k \<in> set (keys (succeed ?s'))"
    with k have "k \<in> set (keys (succeed s))
              \<or> (file_url (snd ip) \<noteq> None \<and> publishedfileid (snd ip) = Some k)"
      by blast
    then show "\<exists>ip \<in> set batch.
           fst ip \<notin> excl ?s' \<and> file_url (snd ip) \<noteq> None \<and> publishedfileid (snd ip) = Some k"
    proof
      assume "k \<in> set (keys (succeed s))"
      then show ?thesis using assms(1) unfolding inv_url_def by simp
    next
      assume "file_url (snd ip) \<noteq> None \<and> publishedfileid (snd ip) = Some k"
      then show ?thesis using assms(2,3) by auto
    qed
  qed
  show ?thesis
    unfolding inv_url_def using 1 2 3 by blast
qed

lemma inv_url_antimono:
  assumes "inv_url batch s" "fail s' = fail s" "calls s' = calls s" "succeed s' = succeed s"
    "excl s' \<subseteq> excl s"
  shows "inv_url batch s'"
  using assms unfolding inv_url_def by (simp; blast)

lemma dispatch_frame [simp]:
  "fail (dispatch L s) = fail s" "calls (dispatch L s) = calls s"
  "succeed (dispatch L s) = succeed s" "error (dispatch L s) = error s"
  "downloads (dispatch L s) = downloads s"
  by (cases rule: dispatch_cases[of s L]; simp)+

lemma inv_url_dispatch: "inv_url batch s \<Longrightarrow> inv_url batch (dispatch L s)"
  by (erule inv_url_antimono) (simp_all add: excl_dispatch)

lemma inv_url_threads: "inv_url batch s \<Longrightarrow> inv_url batch (s\<lparr>threads := ts\<rparr>)"
  by (erule inv_url_antimono) simp_all

lemma inv_url_finish:
  assumes "inv_pos batch s" "inv_url batch s"
  shows "inv_url batch (finish od old net k s)"
proof (cases "k < length (threads s)")
  case False
  then show ?thesis using assms by (simp add: finish_def)
next
  case True
  let ?ts = "take k (threads s) @ drop (Suc k) (threads s)"
  have m: "threads s ! k \<in> set (threads s)"
    using True by simp
  have "inv_url batch (s\<lparr>threads := ?ts\<rparr>)"
    using assms(2) by (rule inv_url_threads)
  moreover have "threads s ! k \<in> set batch"
    using inv_pos_thread_fresh(3)[OF assms(1) m] .
  moreover have "fst (threads s ! k) \<notin> excl (s\<lparr>threads := ?ts\<rparr>)"
    using inv_pos_thread_fresh(1,2)[OF assms(1) m] by (simp add: excl_def tpos_def)
  ultimately have "inv_url batch (download_plugin od old net (threads s ! k) (s\<lparr>threads := ?ts\<rparr>))"
    by (rule inv_url_worker)
  then show ?thesis
    using True by (simp add: finish_def)
qed

lemma inv_step:
  "inv_pos batch s \<and> inv_url batch s \<Longrightarrow>
     inv_pos batch (step L od old net a s) \<and> inv_url batch (step L od old net a s)"
  by (cases a) (simp_all add: inv_pos_dispatch inv_pos_finish inv_url_dispatch inv_url_finish)

lemma inv_steps:
  "inv_pos batch s \<and> inv_url batch s \<Longrightarrow>
     inv_pos batch (fold (step L od old net) as s) \<and> inv_url batch (fold (step L od old net) as s)"
proof (induction as arbitrary: s)
  case Nil
  then show ?case by simp
next
  case (Cons a as)
  from inv_step[OF Cons.prems] Cons.IH show ?case by simp
qed

lemma inv_url_dispatches: "inv_url batch s \<Longrightarrow> inv_url batch ((dispatch L ^^ n) s)"
  by (induction n) (simp_all add: inv_url_dispatch)

lemma inv_url_workers:
  "inv_url batch s \<Longrightarrow> set ts \<subseteq> set batch \<Longrightarrow> fst ` set ts \<inter> excl s = {} \<Longrightarrow>
     inv_url batch (fold (download_plugin od old net) ts s)"
proof (induction ts arbitrary: s)
  case Nil
  then show ?case by simp
next
  case (Cons ip ts)
  have "inv_url batch (download_plugin od old net ip s)"
    using Cons.prems by (intro inv_url_worker) auto
  moreover have "fst ` set ts \<inter> excl (download_plugin od old net ip s) = {}"
    using Cons.prems(3) by auto
  ultimately show ?case
    using Cons.IH Cons.prems(2) by simp
qed

lemma inv_url_join:
  assumes "inv_pos batch s" "inv_url batch s"
  shows "inv_url batch (dl_join L od old net s)"
proof -
  let ?s' = "(dispatch L ^^ length (todo s)) s"
  have i: "inv_pos batch ?s'"
    using assms(1) by (rule inv_pos_dispatches)
  have "inv_url batch ?s'"
    using assms(2) by (rule inv_url_dispatches)
  then have "inv_url batch (?s'\<lparr>threads := []\<rparr>)"
    by (rule inv_url_threads)
  moreover have "set (threads ?s') \<subseteq> set batch"
    using i by (simp add: inv_pos_def)
  moreover have "fst ` set (threads ?s') \<inter> excl (?s'\<lparr>threads := []\<rparr>) = {}"
    using inv_pos_thread_fresh(1,2)[OF i] by (auto simp: excl_def tpos_def)
  ultimately show ?thesis
    unfolding dl_join_def Let_def by (rule inv_url_workers)
qed

lemma inv_url_start: "inv_url batch (dl_start plugins)"
  by (simp add: inv_url_def dl_start_def keys_def)

lemma inv_url_run:
  "inv_url (zip [0..<length plugins] plugins) (dl_run L net as od plugins old)"
proof -
  let ?b = "zip [0..<length plugins] plugins"
  have "inv_pos ?b (dl_start plugins) \<and> inv_url ?b (dl_start plugins)"
    by (simp add: inv_pos_start inv_url_start)
  from inv_steps[OF this] show ?thesis
    unfolding dl_run_def by (simp add: inv_url_join)
qed



lemma workers_frame [simp]:
  "todo (fold (download_plugin od old net) ts s) = todo s"
  "threads (fold (download_plugin od old net) ts s) = threads s"
  "skipped (fold (download_plugin od old net) ts s) = skipped s"
  by (induction ts arbitrary: s) simp_all



lemma in_batch: "(i, p) \<in> set (zip [0..<length xs] xs) \<longleftrightarrow> i < length xs \<and> p = xs ! i"
proof
  assume "(i, p) \<in> set (zip [0..<length xs] xs)"
  then show "i < length xs \<and> p = xs ! i"
    by (auto simp: in_set_zip)
next
  assume a: "i < length xs \<and> p = xs ! i"
  then have "[0..<length xs] ! i = i \<and> xs ! i = p \<and> i < length [0..<length xs] \<and> i < length xs"
    by simp
  then show "(i, p) \<in> set (zip [0..<length xs] xs)"
    unfolding in_set_zip by (intro exI[of _ i]) simp
qed



lemma capped_threads [simp]: "capped L T (s\<lparr>threads := ts\<rparr>) = capped L T s"
  by (simp add: capped_def tpos_def)











lemma run_no_url:
  "dl_run 0 (\<lambda>_ _ _. Retrieved) [] ''out'' [mk_plugin ''1'' ''a'' 5 None] []
   = \<lparr>todo = [], threads = [], downloads = 0, error = 0, fail = [], succeed = [],
      calls = [], skipped = []\<rparr>"
  by (simp add: dl_run_def dl_join_def dl_start_def mk_plugin_def dispatch_def
      download_plugin_def Let_def)




text \<open>
  C4 (as the code has it). For a plugin without \<^verbatim>\<open>file_url\<close>, whatever the limit, the
  interleaving and the network: no \<^verbatim>\<open>urlretrieve\<close> call is made for it and it is not put in
  the failed list, and \<open>error\<close> stays the length of the failed list, so it fails nothing.
  It is not recorded as succeeded either: every key of \<open>succeed\<close> is the identifier of a
  plugin of the batch that has a \<^verbatim>\<open>file_url\<close>.
\<close>

theorem no_url_untouched:
  assumes "i < length plugins" and "file_url (plugins ! i) = None"
    and "s = dl_run L net as od plugins old"
  shows "i \<notin> fst ` set (calls s) \<and> i \<notin> fst ` set (fail s)
    \<and> error s = length (fail s)
    \<and> (\<forall>k \<in> set (keys (succeed s)). \<exists>p \<in> set plugins. file_url p \<noteq> None \<and> publishedfileid p = Some k)"
proof -
  let ?b = "zip [0..<length plugins] plugins"
  have c: "inv_cnt L s" and u: "inv_url ?b s"
    unfolding assms(3) by (rule inv_cnt_run inv_url_run)+
  have 1: "i \<notin> fst ` set (calls s)"
  proof
    assume "i \<in> fst ` set (calls s)"
    then obtain c where "c \<in> set (calls s)" "fst c = i" by auto
    then obtain p where "(i, p) \<in> set ?b" "file_url p = Some (fst (snd c))"
      using u unfolding inv_url_def by blast
    then show False
      using assms(2) by (simp add: in_batch)
  qed
  have 2: "i \<notin> fst ` set (fail s)"
  proof
    assume "i \<in> fst ` set (fail s)"
    then obtain ip where "ip \<in> set (fail s)" "fst ip = i" by auto
    then have "(i, snd ip) \<in> set ?b" "file_url (snd ip) \<noteq> None"
      using u unfolding inv_url_def by auto
    then show False
      using assms(2) by (simp add: in_batch)
  qed
  have 3: "\<forall>k \<in> set (keys (succeed s)). \<exists>p \<in> set plugins. file_url p \<noteq> None \<and> publishedfileid p = Some k"
  proof
    fix k assume "k \<in> set (keys (succeed s))"
    then obtain ip where ip: "ip \<in> set ?b" "file_url (snd ip) \<noteq> None" "publishedfileid (snd ip) = Some k"
      using u unfolding inv_url_def by blast
    then have "snd ip \<in> set plugins"
      using in_batch[of "fst ip" "snd ip" plugins] by simp
    then show "\<exists>p \<in> set plugins. file_url p \<noteq> None \<and> publishedfileid p = Some k"
      using ip by blast
  qed
  show ?thesis
    using 1 2 3 c by (simp add: inv_cnt_def)
qed

theorem no_url_untouched_witness:
  "(0::nat) < length [mk_plugin ''1'' ''a'' 5 None]
   \<and> file_url ([mk_plugin ''1'' ''a'' 5 None] ! 0) = None
   \<and> 0 \<notin> fst ` set (calls (dl_run 0 (\<lambda>_ _ _. Retrieved) [] ''out'' [mk_plugin ''1'' ''a'' 5 None] []))
   \<and> 0 \<notin> fst ` set (fail (dl_run 0 (\<lambda>_ _ _. Retrieved) [] ''out'' [mk_plugin ''1'' ''a'' 5 None] []))
   \<and> error (dl_run 0 (\<lambda>_ _ _. Retrieved) [] ''out'' [mk_plugin ''1'' ''a'' 5 None] []) = 0"
proof -
  have h: "file_url ([mk_plugin ''1'' ''a'' 5 None] ! 0) = None"
    by (simp add: mk_plugin_def)
  show ?thesis
    using h no_url_untouched [of 0 "[mk_plugin ''1'' ''a'' 5 None]"
        "dl_run 0 (\<lambda>_ _ _. Retrieved) [] ''out'' [mk_plugin ''1'' ''a'' 5 None] []" 0
        "\<lambda>_ _ _. Retrieved" "[]" "''out''" "[]"]
    by (simp add: run_no_url)
qed

text \<open>
  The claim as stated fails on a batch of one plugin without \<^verbatim>\<open>file_url\<close>: the returned
  \<open>succeed\<close> is empty.
\<close>

theorem no_url_counterexample:
  "download_plugins_concurrently 0 (\<lambda>_ _ _. Retrieved) [] ''out'' [mk_plugin ''1'' ''a'' 5 None] []
     = (0, [], [])"
  by (simp add: download_plugins_concurrently_def run_no_url)


subsection \<open>Requests\<close>

lemma digit_inj: "a < 10 \<Longrightarrow> b < 10 \<Longrightarrow> digit a = digit b \<Longrightarrow> a = b"
  unfolding digit_def
  by (subst (asm) nth_eq_iff_index_eq) simp_all

lemma str_nat_nonempty [simp]: "str_nat n \<noteq> []" "[] \<noteq> str_nat n"
  by (subst str_nat.simps, simp)+

lemma str_nat_last: "last (str_nat n) = digit (n mod 10)"
  by (subst str_nat.simps) simp

lemma str_nat_butlast: "butlast (str_nat n) = (if n < 10 then [] else str_nat (n div 10))"
  by (subst str_nat.simps) simp

lemma str_nat_inj: "str_nat m = str_nat n \<Longrightarrow> m = n"
proof (induction m arbitrary: n rule: less_induct)
  case (less m)
  from less.prems have "digit (m mod 10) = digit (n mod 10)"
    using str_nat_last[of m] str_nat_last[of n] by simp
  then have r: "m mod 10 = n mod 10"
    by (intro digit_inj) simp_all
  from less.prems have b: "butlast (str_nat m) = butlast (str_nat n)"
    by simp
  show ?case
  proof (cases "m < 10")
    case True
    with b have "n < 10"
      by (auto simp: str_nat_butlast split: if_splits)
    with True r show ?thesis by simp
  next
    case False
    with b have n: "\<not> n < 10" and e: "str_nat (m div 10) = str_nat (n div 10)"
      by (auto simp: str_nat_butlast split: if_splits)
    from False have "m div 10 < m" by simp
    from less.IH[OF this e] have "m div 10 = n div 10" .
    with r show ?thesis
      by (metis div_mult_mod_eq)
  qed
qed

lemma idx_key_inj [simp]: "idx_key i = idx_key j \<longleftrightarrow> i = j"
  by (auto simp: idx_key_def dest: str_nat_inj)

lemma idx_key_not_count [simp]:
  "idx_key i \<noteq> ''collectioncount''" "idx_key i \<noteq> ''itemcount''"
  by (simp_all add: idx_key_def)

lemma map_of_fill_ids_other:
  "(\<forall>j < length ids. k \<noteq> idx_key (i0 + j)) \<Longrightarrow> map_of (fill_ids i0 ids data) k = map_of data k"
proof (induction ids arbitrary: i0 data)
  case Nil
  then show ?case by simp
next
  case (Cons x xs)
  have "\<forall>j < length xs. k \<noteq> idx_key (Suc i0 + j)"
    using Cons.prems by auto
  from Cons.IH[OF this] have "map_of (fill_ids (Suc i0) xs (AList.update (idx_key i0) (PStr x) data)) k
      = map_of (AList.update (idx_key i0) (PStr x) data) k" .
  moreover have "k \<noteq> idx_key i0"
    using Cons.prems by force
  ultimately show ?case
    by (simp add: update_conv')
qed

lemma map_of_fill_ids_at:
  "j < length ids \<Longrightarrow> map_of (fill_ids i0 ids data) (idx_key (i0 + j)) = Some (PStr (ids ! j))"
proof (induction ids arbitrary: i0 j data)
  case Nil
  then show ?case by simp
next
  case (Cons x xs)
  show ?case
  proof (cases j)
    case 0
    have "map_of (fill_ids (Suc i0) xs (AList.update (idx_key i0) (PStr x) data)) (idx_key i0)
      = map_of (AList.update (idx_key i0) (PStr x) data) (idx_key i0)"
      by (rule map_of_fill_ids_other) simp
    then show ?thesis
      using 0 by (simp add: update_conv')
  next
    case (Suc j')
    then have "j' < length xs" using Cons.prems by simp
    from Cons.IH[OF this, of "Suc i0"] show ?thesis
      using Suc by simp
  qed
qed

lemma requested_fill:
  assumes "map_of data ck = Some (PInt (int (length ids)))" "\<forall>j. ck \<noteq> idx_key j"
  shows "requested ck (fill_ids 0 ids data) = ids"
proof -
  have "map_of (fill_ids 0 ids data) ck = Some (PInt (int (length ids)))"
    using assms by (simp add: map_of_fill_ids_other)
  moreover have "map (\<lambda>i. case map_of (fill_ids 0 ids data) (idx_key i) of Some (PStr x) \<Rightarrow> x | _ \<Rightarrow> [])
      [0..<length ids] = ids"
    using map_of_fill_ids_at[of _ ids 0 data]
    by (intro nth_equalityI) simp_all
  ultimately show ?thesis
    by (simp add: requested_def)
qed

lemma requested_collection_request [simp]:
  "requested ''collectioncount'' (collection_request data ids) = ids"
  unfolding collection_request_def
  by (rule requested_fill) (simp_all add: update_conv' idx_key_not_count[symmetric] del: idx_key_not_count)

lemma serve_collection_request [simp]:
  "serve cat (collection_request data ids) = Answer (map (\<lambda>c. (c, cat c)) ids)"
  by (simp add: serve_def)


subsection \<open>get\_plugins\_id\_from\_collections\_list\<close>

lemma scan_children_eq:
  "scan_children items (p, s)
     = (p @ child_files (Some items), s @ child_subs (Some items))"
  by (induction items arbitrary: p s) (auto simp: child_files_def child_subs_def)

lemma scan_collections_eq:
  "scan_collections details (v, p, s)
     = (v @ map fst (filter (\<lambda>c. snd c \<noteq> None) details),
        p @ concat (map (child_files \<circ> snd) details),
        s @ concat (map (child_subs \<circ> snd) details))"
proof (induction details arbitrary: v p s)
  case Nil
  then show ?case by simp
next
  case (Cons c details)
  obtain pid ch where c: "c = (pid, ch)" by (cases c)
  show ?case
  proof (cases ch)
    case None
    then show ?thesis
      using Cons.IH by (simp add: c child_files_def child_subs_def)
  next
    case (Some items)
    then show ?thesis
      using Cons.IH by (simp add: c scan_children_eq)
  qed
qed

lemma reach_unfold: "reach cat R = R \<union> reach cat (direct_subs cat R)"
proof (intro equalityI subsetI)
  fix x assume "x \<in> reach cat R"
  then show "x \<in> R \<union> reach cat (direct_subs cat R)"
  proof (induction rule: reach.induct)
    case (root c)
    then show ?case by simp
  next
    case (sub c children x)
    from sub.IH show ?case
    proof
      assume "c \<in> R"
      with sub.hyps have "x \<in> direct_subs cat R"
        by (auto simp: direct_subs_def)
      then show ?thesis by (simp add: reach.root)
    next
      assume "c \<in> reach cat (direct_subs cat R)"
      with sub.hyps show ?thesis by (auto intro: reach.sub)
    qed
  qed
next
  fix x assume "x \<in> R \<union> reach cat (direct_subs cat R)"
  then show "x \<in> reach cat R"
  proof
    assume "x \<in> R" then show ?thesis by (rule reach.root)
  next
    assume "x \<in> reach cat (direct_subs cat R)"
    then show ?thesis
    proof (induction rule: reach.induct)
      case (root c)
      then obtain c' children where "c' \<in> R" "cat c' = Some children" "(2, c) \<in> set children"
        by (auto simp: direct_subs_def)
      then show ?case by (auto intro: reach.sub reach.root)
    next
      case (sub c children x)
      then show ?case by (auto intro: reach.sub)
    qed
  qed
qed

lemma reach_empty [simp]: "reach cat {} = {}"
proof -
  have "x \<in> reach cat {} \<Longrightarrow> False" for x
    by (induction rule: reach.induct) simp_all
  then show ?thesis by blast
qed

lemma leaves_unfold: "leaves cat R = direct_files cat R \<union> leaves cat (direct_subs cat R)"
  unfolding leaves_def direct_files_def
  by (subst reach_unfold) blast

lemma leaves_empty [simp]: "leaves cat {} = {}"
  by (simp add: leaves_def)

lemma set_level_files: "set (level_files cat ids) = direct_files cat (set ids)"
  by (force simp: level_files_def direct_files_def child_files_def split: option.splits)

lemma set_level_subs: "set (level_subs cat ids) = direct_subs cat (set ids)"
  by (force simp: level_subs_def direct_subs_def child_subs_def split: option.splits)

lemma scan_served:
  "scan_collections (map (\<lambda>c. (c, cat c)) ids) ([], [], [])
     = (level_valid cat ids, level_files cat ids, level_subs cat ids)"
proof -
  have "map fst (filter (\<lambda>c. snd c \<noteq> None) (map (\<lambda>c. (c, cat c)) ids)) = level_valid cat ids"
    unfolding level_valid_def by (induction ids) simp_all
  then show ?thesis
    by (simp add: scan_collections_eq level_files_def level_subs_def comp_def)
qed

lemma resolve_step:
  "get_plugins_id_from_collections_list (Suc n) (serve cat) data ids =
     (if level_subs cat ids \<noteq> [] then
        (case get_plugins_id_from_collections_list n (serve cat) (collection_request data ids)
                (level_subs cat ids) of
           None \<Rightarrow> None
         | Some (data'', Inl x) \<Rightarrow> Some (data'', Inl x)
         | Some (data'', Inr (error_sub, tmp, _)) \<Rightarrow>
             Some (data'', Inr (error_sub,
               if error_sub = None then level_files cat ids @ tmp else level_files cat ids,
               level_valid cat ids)))
      else Some (collection_request data ids,
             Inr (None, level_files cat ids, level_valid cat ids)))"
  by (simp add: Let_def scan_served)

lemma resolve_tree:
  assumes rank: "\<forall>c children x. cat c = Some children \<longrightarrow> (2, x) \<in> set children \<longrightarrow> rank x < rank c"
    and "\<forall>c \<in> set ids. rank c < n" and "0 < n"
  shows "\<exists>data' plugins.
      get_plugins_id_from_collections_list n (serve cat) data ids
        = Some (data', Inr (None, plugins, level_valid cat ids))
      \<and> set plugins = leaves cat (set ids)"
  using assms(2,3)
proof (induction n arbitrary: data ids)
  case 0
  then show ?case by simp
next
  case (Suc n)
  let ?sub = "level_subs cat ids"
  show ?case
  proof (cases "?sub = []")
    case True
    then have "direct_subs cat (set ids) = {}"
      using set_level_subs[of cat ids] by simp
    then have "leaves cat (set ids) = set (level_files cat ids)"
      using leaves_unfold[of cat "set ids"] by (simp add: set_level_files)
    then show ?thesis
      unfolding resolve_step using True by simp
  next
    case False
    have "\<forall>x \<in> set ?sub. rank x < n"
    proof
      fix x assume "x \<in> set ?sub"
      then have "x \<in> direct_subs cat (set ids)"
        by (simp add: set_level_subs)
      then obtain c children where "c \<in> set ids" "cat c = Some children" "(2, x) \<in> set children"
        by (auto simp: direct_subs_def)
      then have "rank x < rank c" "rank c < Suc n"
        using rank Suc.prems(1) by blast+
      then show "rank x < n" by simp
    qed
    moreover from this False have "0 < n"
      by (cases ?sub) auto
    ultimately obtain data'' tmp where
      r: "get_plugins_id_from_collections_list n (serve cat) (collection_request data ids) ?sub
          = Some (data'', Inr (None, tmp, level_valid cat ?sub))"
      and t: "set tmp = leaves cat (set ?sub)"
      using Suc.IH[of ?sub "collection_request data ids"] by blast
    have "leaves cat (set ids) = set (level_files cat ids) \<union> set tmp"
      using leaves_unfold[of cat "set ids"] t by (simp add: set_level_files set_level_subs)
    then show ?thesis
      unfolding resolve_step using False r by simp
  qed
qed


lemma shared_run:
  "get_plugins_id_from_collections_list 2 (serve shared_cat) (collection_data const_data) [''1'']
     = Some (collection_request (collection_request (collection_data const_data) [''1'']) [''2''],
             Inr (None, [''A'', ''A''], [''1'']))"
  by (simp add: eval_nat_numeral resolve_step level_subs_def level_files_def level_valid_def
      child_subs_def child_files_def shared_cat_def)

lemma cyclic_never_returns:
  "get_plugins_id_from_collections_list n (serve cyclic_cat) data [''1''] = None"
proof (induction n arbitrary: data)
  case 0
  show ?case by simp
next
  case (Suc n)
  have "level_subs cyclic_cat [''1''] = [''1'']"
    by (simp add: level_subs_def child_subs_def cyclic_cat_def)
  then show ?case
    unfolding resolve_step by (simp add: Suc)
qed

lemma rank_nested:
  "\<forall>c children x. nested_cat c = Some children \<longrightarrow> (2, x) \<in> set children \<longrightarrow> depth_rank x < depth_rank c"
  by (auto simp: nested_cat_def depth_rank_def split: if_splits)

lemma rank_shared:
  "\<forall>c children x. shared_cat c = Some children \<longrightarrow> (2, x) \<in> set children \<longrightarrow> depth_rank x < depth_rank c"
  by (auto simp: shared_cat_def depth_rank_def split: if_splits)

text \<open>
  C2 (as the code has it). For a catalog whose nesting is well-founded (a rank that decreases
  from a collection to its sub-collections) and a depth the nesting fits in, the call returns
  without error, and the identifiers it returns are those of the files referenced by the
  collections reachable from the input: each of them is in the list and nothing else is. The
  list is the concatenation of what every level found, so an identifier referenced several
  times is in it several times.
\<close>

theorem resolver_collects_leaves:
  assumes "\<forall>c children x. cat c = Some children \<longrightarrow> (2, x) \<in> set children \<longrightarrow> rank x < rank c"
    and "\<forall>c \<in> set ids. rank c < depth" and "0 < depth"
  shows "\<exists>data' plugins valid.
      get_plugins_id_from_collections_list depth (serve cat) data ids
        = Some (data', Inr (None, plugins, valid))
      \<and> set plugins = leaves cat (set ids)"
  using resolve_tree[of cat rank ids depth data, OF assms] by blast

theorem resolver_collects_leaves_witness:
  "get_plugins_id_from_collections_list 2 (serve shared_cat) (collection_data const_data) [''1'']
     = Some (collection_request (collection_request (collection_data const_data) [''1'']) [''2''],
             Inr (None, [''A'', ''A''], [''1'']))
   \<and> leaves shared_cat (set [''1'']) = set [''A'', ''A'']"
proof -
  have "\<forall>c \<in> set [''1'']. depth_rank c < 2"
    by (simp add: depth_rank_def)
  from resolver_collects_leaves[of shared_cat depth_rank "[''1'']" 2 "collection_data const_data",
      OF rank_shared this]
  show ?thesis
    unfolding shared_run by auto
qed

text \<open>
  The claim as stated fails where a collection and its sub-collection both name the file
  \<open>A\<close>: one distinct identifier is referenced, the returned list holds it twice.
\<close>

theorem resolver_duplicates_counterexample:
  "get_plugins_id_from_collections_list 2 (serve shared_cat) (collection_data const_data) [''1'']
     = Some (collection_request (collection_request (collection_data const_data) [''1'']) [''2''],
             Inr (None, [''A'', ''A''], [''1'']))
   \<and> \<not> distinct [''A'', ''A'']"
  by (simp add: shared_run)




text \<open>
  C8 (as the code has it). For a catalog whose nesting is well-founded, the call returns a
  triple as soon as the number of nested calls available exceeds the rank of the collections
  asked for, and with every larger number.
\<close>

theorem resolver_returns_on_wellfounded:
  assumes "\<forall>c children x. cat c = Some children \<longrightarrow> (2, x) \<in> set children \<longrightarrow> rank x < rank c"
    and "\<forall>c \<in> set ids. rank c < depth" and "depth \<le> d" and "0 < d"
  shows "\<exists>data' result. get_plugins_id_from_collections_list d (serve cat) data ids
            = Some (data', Inr result)"
proof -
  have "\<forall>c \<in> set ids. rank c < d"
    using assms(2,3) by auto
  from resolve_tree[of cat rank ids d data, OF assms(1) this assms(4)]
  show ?thesis by blast
qed

theorem resolver_returns_on_wellfounded_witness:
  "get_plugins_id_from_collections_list 2 (serve nested_cat) (collection_data const_data) [''1''] \<noteq> None"
proof -
  have "\<forall>c \<in> set [''1'']. depth_rank c < 2"
    by (simp add: depth_rank_def)
  from resolver_returns_on_wellfounded[of nested_cat depth_rank "[''1'']" 2 2 "collection_data const_data",
      OF rank_nested this]
  show ?thesis
    by force
qed

text \<open>
  The claim as stated fails on a collection that is its own sub-collection: no number of
  nested calls is enough for the call to return.
\<close>

theorem cycle_counterexample:
  "\<forall>n. get_plugins_id_from_collections_list n (serve cyclic_cat) (collection_data const_data) [''1''] = None"
  by (simp add: cyclic_never_returns)



subsection \<open>The shared request templates\<close>

lemma requested_file_request [simp]:
  "requested ''itemcount'' (file_request data ids) = ids"
  unfolding file_request_def
  by (rule requested_fill) (simp_all add: update_conv' idx_key_not_count[symmetric] del: idx_key_not_count)

lemma get_plugins_info_template:
  "fst (get_plugins_info urlopen data ids) = file_request data ids"
  by (simp add: get_plugins_info_def Let_def split: response.splits option.splits)

lemma resolve_any_template:
  "map_option snd (get_plugins_id_from_collections_list depth (serve cat) data ids)
     = map_option snd (get_plugins_id_from_collections_list depth (serve cat) data2 ids)"
proof (induction depth arbitrary: data data2 ids)
  case 0
  show ?case by simp
next
  case (Suc n)
  let ?a = "get_plugins_id_from_collections_list n (serve cat) (collection_request data ids) (level_subs cat ids)"
  let ?b = "get_plugins_id_from_collections_list n (serve cat) (collection_request data2 ids) (level_subs cat ids)"
  have ih: "map_option snd ?a = map_option snd ?b"
    by (rule Suc.IH)
  show ?case
  proof (cases "level_subs cat ids = []")
    case True
    then show ?thesis unfolding resolve_step by simp
  next
    case False
    show ?thesis
    proof (cases ?a)
      case None
      with ih have "?b = None" by simp
      with None False show ?thesis unfolding resolve_step by simp
    next
      case (Some r)
      with ih have "map_option snd ?b = Some (snd r)" by simp
      then obtain r2 where b: "?b = Some r2" and e: "snd r = snd r2"
        by (cases ?b) auto
      obtain d x where r: "r = (d, x)" by (cases r)
      obtain d2 where r2: "r2 = (d2, x)" using e r by (cases r2) auto
      show ?thesis
        unfolding resolve_step using False Some b r r2
        by (cases x) (auto split: prod.splits)
    qed
  qed
qed

text \<open>
  C10 (as the code has it). Whatever earlier calls left in the template: the count and the
  first so many identifiers of the request are the list of this call, the template
  \<^verbatim>\<open>get_plugins_info\<close> leaves is the request it sent, and for a catalog that answers from the
  count and the identifiers it reads, what \<^verbatim>\<open>get_plugins_id_from_collections_list\<close> returns is
  what it returns on the untouched template. The request itself keeps every other entry of
  the template.
\<close>

theorem request_reads_back:
  "requested ''collectioncount'' (collection_request data ids) = ids
   \<and> requested ''itemcount'' (file_request data ids) = ids
   \<and> fst (get_plugins_info urlopen data ids) = file_request data ids
   \<and> map_option snd (get_plugins_id_from_collections_list depth (serve cat) data ids)
       = map_option snd (get_plugins_id_from_collections_list depth (serve cat) (collection_data const_data) ids)"
  using resolve_any_template[of depth cat data ids "collection_data const_data"]
  by (simp add: get_plugins_info_template)

lemma enc1: "urlencode (file_request (file_data const_data) [''33''])
    = ''itemcount=1&publishedfileids%5B0%5D=33''"
  by (simp add: urlencode_def file_request_def const_data_def idx_key_def str_nat.simps digit_def
      quote_plus_def quote_char_def hex_digit_def str_val_def)

lemma enc2: "urlencode (file_request (file_request (file_data const_data) [''11'', ''22'']) [''33''])
    = ''itemcount=1&publishedfileids%5B0%5D=33&publishedfileids%5B1%5D=22''"
  by (simp add: urlencode_def file_request_def const_data_def idx_key_def str_nat.simps digit_def
      quote_plus_def quote_char_def hex_digit_def str_val_def)


text \<open>
  The claim as stated fails for \<^verbatim>\<open>get_plugins_info\<close> called on two identifiers and then on
  one: the second request still carries the second identifier of the first, which a first
  call on the same list does not send.
\<close>

theorem template_leak_counterexample:
  "urlencode (fst (get_plugins_info (\<lambda>_. Answer [])
       (fst (get_plugins_info (\<lambda>_. Answer []) (file_data const_data) [''11'', ''22''])) [''33'']))
     = ''itemcount=1&publishedfileids%5B0%5D=33&publishedfileids%5B1%5D=22''
   \<and> urlencode (fst (get_plugins_info (\<lambda>_. Answer []) (file_data const_data) [''33'']))
     = ''itemcount=1&publishedfileids%5B0%5D=33''"
  by (simp add: get_plugins_info_template enc1 enc2)



subsection \<open>main\<close>

lemma attempt_error: "attempt L w od old ps n = (e, f, st) \<Longrightarrow> e = length f"
  using inv_cnt_run[of L "urlretrieve_at w n" "schedule_at w n" od ps old]
  by (auto simp: attempt_def download_plugins_concurrently_def Let_def inv_cnt_def)

lemma loop_measure:
  fixes w :: world
  assumes "plugins_info \<noteq> [] \<and> num < 5"
    and "(x, y) = download_plugins_concurrently L (urlretrieve_at w n) (schedule_at w n) od plugins_info old"
    and "(xa, ya) = y"
  shows "(if xa = [] then 0 else 6 - (if 0 < x then Suc num else 0)) < 6 - num"
proof -
  have "attempt L w od old plugins_info n = (x, xa, ya)"
    using assms(2,3) by (simp add: attempt_def)
  then have "x = length xa"
    by (rule attempt_error)
  then show ?thesis
    using assms(1) by auto
qed

termination download_loop
  apply (relation "measure (\<lambda>(L, w, od, old, num, ps, sd, n, ws). if ps = [] then 0 else 6 - num)")
   apply simp
  apply (simp only: in_measure prod.case if_False)
  apply (erule (2) loop_measure)
  done

declare download_loop.simps [simp del]



lemma loop_exit:
  "\<not> (plugins_info \<noteq> [] \<and> num < 5) \<Longrightarrow>
   download_loop L w od old num plugins_info sd n ws
     = \<lparr>ending = (if num \<noteq> 0 then GivenUp else Done), attempts = n, writes = ws\<rparr>"
  by (subst download_loop.simps) auto

lemma loop_step:
  assumes "plugins_info \<noteq> []" "num < 5" "sd_plugins sd = Some saved"
    and "attempt L w od old plugins_info n = (e, f, st)"
  shows "download_loop L w od old num plugins_info sd n ws
     = download_loop L w od old (if 0 < e then Suc num else 0) f
         (sd\<lparr>sd_plugins := Some (dict_update saved st)\<rparr>) (Suc n)
         (ws @ [sd\<lparr>sd_plugins := Some (dict_update saved st)\<rparr>])"
  using assms by (subst download_loop.simps) (simp add: attempt_def Let_def)

lemma writes_count_loop:
  "sd_plugins sd \<noteq> None \<Longrightarrow> length (writes (download_loop L w od old num plugins_info sd n ws)) + n
     = attempts (download_loop L w od old num plugins_info sd n ws) + length ws"
proof (induction L w od old num plugins_info sd n ws rule: download_loop.induct)
  case (1 L w od old num ps sd n ws)
  show ?case
  proof (cases "ps \<noteq> [] \<and> num < 5")
    case False
    from loop_exit[OF this] show ?thesis by simp
  next
    case True
    obtain e f st where a: "download_plugins_concurrently L (urlretrieve_at w n) (schedule_at w n) od ps old = (e, f, st)"
      by (cases "download_plugins_concurrently L (urlretrieve_at w n) (schedule_at w n) od ps old")
    from "1.prems" obtain saved where Some: "sd_plugins sd = Some saved"
      by auto
    show ?thesis
    proof -
      let ?sd = "sd\<lparr>sd_plugins := Some (dict_update saved st)\<rparr>"
      have "length (writes (download_loop L w od old (if 0 < e then Suc num else 0) f ?sd (Suc n) (ws @ [?sd]))) + Suc n
          = attempts (download_loop L w od old (if 0 < e then Suc num else 0) f ?sd (Suc n) (ws @ [?sd])) + length (ws @ [?sd])"
        using "1.IH"[OF True a[symmetric] refl Some refl] by simp
      moreover have "download_loop L w od old num ps sd n ws
          = download_loop L w od old (if 0 < e then Suc num else 0) f ?sd (Suc n) (ws @ [?sd])"
        using True Some a by (intro loop_step) (simp_all add: attempt_def)
      ultimately show ?thesis by simp
    qed
  qed
qed

lemma writes_count_fetch:
  "length (writes (fetch_and_download L w od old sd data ids))
     = attempts (fetch_and_download L w od old sd data ids)"
proof (cases "get_plugins_info (file_api w) data ids")
  case (Pair data' r)
  show ?thesis
  proof (cases r)
    case (Inl x)
    with Pair show ?thesis by (simp add: fetch_and_download_def)
  next
    case (Inr t)
    obtain e info where t: "t = (e, info)" by (cases t)
    show ?thesis
    proof (cases e)
      case None
      have "length (writes (download_loop L w od old 0 info (sd\<lparr>sd_plugins := Some []\<rparr>) 0 [])) + 0
          = attempts (download_loop L w od old 0 info (sd\<lparr>sd_plugins := Some []\<rparr>) 0 []) + length ([] :: saved_data list)"
        by (rule writes_count_loop) simp
      with Pair Inr t None show ?thesis by (simp add: fetch_and_download_def)
    next
      case (Some a)
      with Pair Inr t show ?thesis by (simp add: fetch_and_download_def)
    qed
  qed
qed

lemma writes_count_reconcile:
  "length (writes (reconcile L w od sd ids valid)) = attempts (reconcile L w od sd ids valid)"
proof (cases "sd_plugins sd")
  case None
  then show ?thesis by (simp add: reconcile_def writes_count_fetch)
next
  case (Some old_plugins)
  let ?dep = "list_set w (plugins_to_remove ids old_plugins)"
  show ?thesis
  proof (cases "?dep = []")
    case True
    with Some show ?thesis by (simp add: reconcile_def writes_count_fetch)
  next
    case False
    obtain data' r where p: "get_plugins_info (file_api w) (file_data const_data) ?dep = (data', r)"
      by (cases "get_plugins_info (file_api w) (file_data const_data) ?dep")
    show ?thesis
    proof (cases r)
      case (Inl x)
      with Some False p show ?thesis by (simp add: reconcile_def)
    next
      case (Inr t)
      obtain e info where t: "t = (e, info)" by (cases t)
      with Some False p Inr show ?thesis
        by (cases e) (simp_all add: reconcile_def writes_count_fetch)
    qed
  qed
qed

lemma attempts_ge: "n \<le> attempts (download_loop L w od old num plugins_info sd n ws)"
proof (induction L w od old num plugins_info sd n ws rule: download_loop.induct)
  case (1 L w od old num ps sd n ws)
  show ?case
  proof (cases "ps \<noteq> [] \<and> num < 5")
    case False
    from loop_exit[OF this] show ?thesis by simp
  next
    case True
    obtain e f st where a: "download_plugins_concurrently L (urlretrieve_at w n) (schedule_at w n) od ps old = (e, f, st)"
      by (cases "download_plugins_concurrently L (urlretrieve_at w n) (schedule_at w n) od ps old")
    show ?thesis
    proof (cases "sd_plugins sd")
      case None
      with True a show ?thesis
        by (subst download_loop.simps) simp
    next
      case (Some saved)
      let ?sd = "sd\<lparr>sd_plugins := Some (dict_update saved st)\<rparr>"
      have "Suc n \<le> attempts (download_loop L w od old (if 0 < e then Suc num else 0) f ?sd (Suc n) (ws @ [?sd]))"
        using "1.IH"[OF True a[symmetric] refl Some refl] .
      moreover have "download_loop L w od old num ps sd n ws
          = download_loop L w od old (if 0 < e then Suc num else 0) f ?sd (Suc n) (ws @ [?sd])"
        using True Some a by (intro loop_step) (simp_all add: attempt_def)
      ultimately show ?thesis by simp
    qed
  qed
qed

lemma loop_writes:
  "sd_plugins sd = Some saved \<Longrightarrow>
   writes (download_loop L w od old num plugins_info sd n ws)
     = ws @ map (\<lambda>k. sd\<lparr>sd_plugins := Some (saved_after L w od old plugins_info saved n k)\<rparr>)
             [0..<attempts (download_loop L w od old num plugins_info sd n ws) - n]"
proof (induction L w od old num plugins_info sd n ws arbitrary: saved rule: download_loop.induct)
  case (1 L w od old num ps sd n ws)
  show ?case
  proof (cases "ps \<noteq> [] \<and> num < 5")
    case False
    from loop_exit[OF this] show ?thesis by simp
  next
    case True
    obtain e f st where a: "download_plugins_concurrently L (urlretrieve_at w n) (schedule_at w n) od ps old = (e, f, st)"
      by (cases "download_plugins_concurrently L (urlretrieve_at w n) (schedule_at w n) od ps old")
    then have at: "attempt L w od old ps n = (e, f, st)"
      by (simp add: attempt_def)
    let ?sd = "sd\<lparr>sd_plugins := Some (dict_update saved st)\<rparr>"
    let ?res = "download_loop L w od old (if 0 < e then Suc num else 0) f ?sd (Suc n) (ws @ [?sd])"
    have step: "download_loop L w od old num ps sd n ws = ?res"
      using True "1.prems" at by (intro loop_step) simp_all
    have ih: "writes ?res = (ws @ [?sd]) @ map (\<lambda>k. ?sd\<lparr>sd_plugins := Some (saved_after L w od old f (dict_update saved st) (Suc n) k)\<rparr>)
             [0..<attempts ?res - Suc n]"
      using "1.IH"[OF True a[symmetric] refl "1.prems" refl, of "dict_update saved st"] by simp
    have "Suc n \<le> attempts ?res"
      by (rule attempts_ge)
    then obtain m where m: "attempts ?res - n = Suc m" "attempts ?res - Suc n = m"
      by (cases "attempts ?res - n") auto
    have "map (\<lambda>k. sd\<lparr>sd_plugins := Some (saved_after L w od old ps saved n k)\<rparr>) [0..<Suc m]
        = ?sd # map (\<lambda>k. ?sd\<lparr>sd_plugins := Some (saved_after L w od old f (dict_update saved st) (Suc n) k)\<rparr>) [0..<m]"
      unfolding upt_conv_Cons[OF zero_less_Suc] map_Suc_upt[symmetric]
      by (simp add: at)
    with ih m show ?thesis
      unfolding step by simp
  qed
qed

lemma writes_fetch:
  assumes "writes (fetch_and_download L w od old sd data ids) \<noteq> []"
  shows "\<exists>data'' info. get_plugins_info (file_api w) data ids = (data'', Inr (None, info))
     \<and> writes (fetch_and_download L w od old sd data ids)
         = map (\<lambda>k. sd\<lparr>sd_plugins := Some (saved_after L w od old info [] 0 k)\<rparr>)
             [0..<attempts (fetch_and_download L w od old sd data ids)]"
proof (cases "get_plugins_info (file_api w) data ids")
  case (Pair data'' r)
  show ?thesis
  proof (cases r)
    case (Inl x)
    with Pair assms show ?thesis by (simp add: fetch_and_download_def)
  next
    case (Inr t)
    obtain e info where t: "t = (e, info)" by (cases t)
    show ?thesis
    proof (cases e)
      case (Some a)
      with Pair Inr t assms show ?thesis by (simp add: fetch_and_download_def)
    next
      case None
      let ?sd = "sd\<lparr>sd_plugins := Some []\<rparr>"
      have f: "fetch_and_download L w od old sd data ids = download_loop L w od old 0 info ?sd 0 []"
        using Pair Inr t None by (simp add: fetch_and_download_def)
      have "writes (download_loop L w od old 0 info ?sd 0 [])
          = [] @ map (\<lambda>k. ?sd\<lparr>sd_plugins := Some (saved_after L w od old info [] 0 k)\<rparr>)
             [0..<attempts (download_loop L w od old 0 info ?sd 0 []) - 0]"
        by (rule loop_writes) simp
      then have "writes (fetch_and_download L w od old sd data ids)
          = map (\<lambda>k. sd\<lparr>sd_plugins := Some (saved_after L w od old info [] 0 k)\<rparr>)
             [0..<attempts (fetch_and_download L w od old sd data ids)]"
        unfolding f by simp
      with Pair Inr t None show ?thesis by simp
    qed
  qed
qed

lemma writes_reconcile:
  assumes "writes (reconcile L w od sd ids valid) \<noteq> []"
  shows "\<exists>data ids' data'' info. get_plugins_info (file_api w) data ids' = (data'', Inr (None, info))
     \<and> writes (reconcile L w od sd ids valid)
         = map (\<lambda>k. sd\<lparr>sd_collections := Some valid, sd_plugins := Some (saved_after L w od
                   (case sd_plugins sd of None \<Rightarrow> [] | Some old_plugins \<Rightarrow> old_plugins) info [] 0 k)\<rparr>)
             [0..<attempts (reconcile L w od sd ids valid)]"
proof -
  let ?sd = "sd\<lparr>sd_collections := Some valid\<rparr>"
  let ?old = "case sd_plugins sd of None \<Rightarrow> [] | Some old_plugins \<Rightarrow> old_plugins"
  have "\<exists>data ids'. reconcile L w od sd ids valid = fetch_and_download L w od ?old ?sd data ids'"
  proof (cases "sd_plugins sd")
    case None
    then show ?thesis by (auto simp: reconcile_def)
  next
    case (Some old_plugins)
    let ?dep = "list_set w (plugins_to_remove ids old_plugins)"
    show ?thesis
    proof (cases "?dep = []")
      case True
      with Some show ?thesis by (auto simp: reconcile_def)
    next
      case False
      obtain data' r where p: "get_plugins_info (file_api w) (file_data const_data) ?dep = (data', r)"
        by (cases "get_plugins_info (file_api w) (file_data const_data) ?dep")
      show ?thesis
      proof (cases r)
        case (Inl x)
        with Some False p assms show ?thesis by (simp add: reconcile_def)
      next
        case (Inr t)
        obtain e info where t: "t = (e, info)" by (cases t)
        show ?thesis
        proof (cases e)
          case None
          with Some False p Inr t assms show ?thesis by (simp add: reconcile_def)
        next
          case (Some a)
          with \<open>sd_plugins sd = Some old_plugins\<close> False p Inr t show ?thesis
            by (auto simp: reconcile_def)
        qed
      qed
    qed
  qed
  then obtain data ids' where r: "reconcile L w od sd ids valid = fetch_and_download L w od ?old ?sd data ids'"
    by blast
  from assms have "writes (fetch_and_download L w od ?old ?sd data ids') \<noteq> []"
    unfolding r .
  from writes_fetch[OF this] show ?thesis
    unfolding r by auto
qed

lemma main_reaches_reconcile:
  assumes "writes (main L w init_error od argv_collections sd) \<noteq> []"
  shows "\<exists>data' ids valid.
      get_plugins_id_from_collections_list (recursion_limit w) (collection_api w)
          (collection_data const_data) (collections_asked w argv_collections sd)
        = Some (data', Inr (None, ids, valid))
      \<and> main L w init_error od argv_collections sd = reconcile L w od sd ids valid"
proof -
  let ?ids = "collections_asked w argv_collections sd"
  let ?r = "get_plugins_id_from_collections_list (recursion_limit w) (collection_api w)
          (collection_data const_data) ?ids"
  have m: "main L w init_error od argv_collections sd =
     (if init_error \<noteq> 0 then \<lparr>ending = Stopped, attempts = 0, writes = []\<rparr>
      else if ?ids = [] then \<lparr>ending = Stopped, attempts = 0, writes = []\<rparr>
      else (case ?r of
                 None \<Rightarrow> \<lparr>ending = Raised RecursionError, attempts = 0, writes = []\<rparr>
               | Some (data', Inl x) \<Rightarrow> \<lparr>ending = Raised x, attempts = 0, writes = []\<rparr>
               | Some (data', Inr (Some e, plugins_id_list, valid_collections)) \<Rightarrow>
                   \<lparr>ending = Stopped, attempts = 0, writes = []\<rparr>
               | Some (data', Inr (None, plugins_id_list, valid_collections)) \<Rightarrow>
                   reconcile L w od sd plugins_id_list valid_collections))"
    by (simp add: main_def collections_asked_def Let_def)
  from assms have c: "init_error = 0" "?ids \<noteq> []"
    unfolding m by (auto split: if_splits)
  show ?thesis
  proof (cases ?r)
    case None
    with assms c show ?thesis unfolding m by simp
  next
    case (Some p)
    obtain data' x where p: "p = (data', x)" by (cases p)
    show ?thesis
    proof (cases x)
      case (Inl a)
      with assms c Some p show ?thesis unfolding m by simp
    next
      case (Inr t)
      obtain e ids valid where t: "t = (e, ids, valid)" by (cases t)
      show ?thesis
      proof (cases e)
        case None
        with c Some p Inr t show ?thesis unfolding m by simp
      next
        case (Some a)
        with assms c \<open>?r = Some p\<close> p Inr t show ?thesis unfolding m by simp
      qed
    qed
  qed
qed

lemma loop_nothing: "download_loop L w od old 0 [] sd 0 [] = \<lparr>ending = Done, attempts = 0, writes = []\<rparr>"
  using loop_exit[of "[]" 0 L w od old sd 0 "[]"] by simp

lemma resolve_leaf:
  "get_plugins_id_from_collections_list 1000 (serve empty_cat) data [''1'']
     = Some (collection_request data [''1''], Inr (None, [], [''1'']))"
proof -
  have "get_plugins_id_from_collections_list (Suc 999) (serve empty_cat) data [''1'']
     = Some (collection_request data [''1''], Inr (None, [], [''1'']))"
    unfolding resolve_step
    by (simp add: level_subs_def level_files_def level_valid_def child_subs_def child_files_def empty_cat_def)
  then show ?thesis by simp
qed

lemma resolve_one_file:
  "get_plugins_id_from_collections_list 1000 (serve one_file_cat) data [''1'']
     = Some (collection_request data [''1''], Inr (None, [''7''], [''1'']))"
proof -
  have "get_plugins_id_from_collections_list (Suc 999) (serve one_file_cat) data [''1'']
     = Some (collection_request data [''1''], Inr (None, [''7''], [''1'']))"
    unfolding resolve_step
    by (simp add: level_subs_def level_files_def level_valid_def child_subs_def child_files_def one_file_cat_def)
  then show ?thesis by simp
qed

lemma busy_loop:
  "download_loop 0 busy_world ''out'' [] 0 [mk_plugin ''7'' ''g'' 5 (Some ''u7'')]
       \<lparr>sd_collections = Some [''1''], sd_plugins = Some []\<rparr> 0 []
     = \<lparr>ending = Done, attempts = 1,
        writes = [\<lparr>sd_collections = Some [''1''], sd_plugins = Some [(''7'', (Some ''g'', Some 5))]\<rparr>]\<rparr>"
proof -
  have a: "attempt 0 busy_world ''out'' [] [mk_plugin ''7'' ''g'' 5 (Some ''u7'')] 0
      = (0, [], [(''7'', (Some ''g'', Some 5))])"
    by (simp add: attempt_def download_plugins_concurrently_def dl_run_def dl_join_def dl_start_def
      mk_plugin_def dispatch_def busy_world_def
      download_plugin_def up_to_date_def path_join_def meta_of_def Let_def upt_rec numeral_nat)
  have "download_loop 0 busy_world ''out'' [] 0 [mk_plugin ''7'' ''g'' 5 (Some ''u7'')]
       \<lparr>sd_collections = Some [''1''], sd_plugins = Some []\<rparr> 0 []
     = download_loop 0 busy_world ''out'' [] (if (0::nat) < 0 then Suc 0 else 0) []
         (\<lparr>sd_collections = Some [''1''], sd_plugins = Some []\<rparr>
            \<lparr>sd_plugins := Some (dict_update [] [(''7'', (Some ''g'', Some 5))])\<rparr>) (Suc 0)
         ([] @ [\<lparr>sd_collections = Some [''1''], sd_plugins = Some []\<rparr>
            \<lparr>sd_plugins := Some (dict_update [] [(''7'', (Some ''g'', Some 5))])\<rparr>])"
    by (rule loop_step[OF _ _ _ a]) simp_all
  also have "\<dots> = \<lparr>ending = Done, attempts = 1,
        writes = [\<lparr>sd_collections = Some [''1''], sd_plugins = Some [(''7'', (Some ''g'', Some 5))]\<rparr>]\<rparr>"
    using loop_exit[of "[]" 0 0 busy_world "''out''" "[]"
        "\<lparr>sd_collections = Some [''1''], sd_plugins = Some [(''7'', (Some ''g'', Some 5))]\<rparr>" "Suc 0"
        "[\<lparr>sd_collections = Some [''1''], sd_plugins = Some [(''7'', (Some ''g'', Some 5))]\<rparr>]"]
    by (simp add: dict_update_def)
  finally show ?thesis .
qed

lemma busy_run:
  "main 0 busy_world 0 ''out'' [''1''] \<lparr>sd_collections = None, sd_plugins = None\<rparr>
     = \<lparr>ending = Done, attempts = 1,
        writes = [\<lparr>sd_collections = Some [''1''], sd_plugins = Some [(''7'', (Some ''g'', Some 5))]\<rparr>]\<rparr>"
proof -
  have b: "recursion_limit busy_world = 1000" "collection_api busy_world = serve one_file_cat"
    "file_api busy_world = (\<lambda>_. Answer [mk_plugin ''7'' ''g'' 5 (Some ''u7'')])"
    by (simp_all add: busy_world_def)
  show ?thesis
    by (simp add: main_def b resolve_one_file reconcile_def fetch_and_download_def
      get_plugins_info_def busy_loop)
qed

text \<open>
  C9 (as the code has it). In every run the state file is written once after each call of
  \<^verbatim>\<open>download_plugins_concurrently\<close> and at no other point: the number of writes is the number
  of download batches, and nothing is written after the reconciliation. When something is
  written, the resolver returned without error, and the \<open>k\<close>-th write is the loaded state
  with \<^verbatim>\<open>collections\<close> set to the valid collections of this run and \<^verbatim>\<open>plugins\<close> set to what
  the batches up to the \<open>k\<close>-th returned as succeeded, starting from the empty dictionary.
\<close>

theorem writes_only_after_batches:
  "length (writes (main L w init_error od argv_collections sd))
     = attempts (main L w init_error od argv_collections sd)
   \<and> (writes (main L w init_error od argv_collections sd) \<noteq> [] \<longrightarrow>
        (\<exists>data' ids valid data ids' data'' info.
           get_plugins_id_from_collections_list (recursion_limit w) (collection_api w)
               (collection_data const_data) (collections_asked w argv_collections sd)
             = Some (data', Inr (None, ids, valid))
           \<and> get_plugins_info (file_api w) data ids' = (data'', Inr (None, info))
           \<and> writes (main L w init_error od argv_collections sd)
               = map (\<lambda>k. sd\<lparr>sd_collections := Some valid,
                             sd_plugins := Some (saved_after L w od
                               (case sd_plugins sd of None \<Rightarrow> [] | Some old_plugins \<Rightarrow> old_plugins)
                               info [] 0 k)\<rparr>)
                   [0..<attempts (main L w init_error od argv_collections sd)]))"
proof (intro conjI impI)
  show "length (writes (main L w init_error od argv_collections sd))
     = attempts (main L w init_error od argv_collections sd)"
    by (simp add: main_def Let_def writes_count_reconcile
        split: option.splits prod.splits sum.splits)
next
  assume a: "writes (main L w init_error od argv_collections sd) \<noteq> []"
  from main_reaches_reconcile[OF a] obtain data' ids valid where
    r: "get_plugins_id_from_collections_list (recursion_limit w) (collection_api w)
          (collection_data const_data) (collections_asked w argv_collections sd)
        = Some (data', Inr (None, ids, valid))"
    and m: "main L w init_error od argv_collections sd = reconcile L w od sd ids valid"
    by blast
  from a have "writes (reconcile L w od sd ids valid) \<noteq> []"
    unfolding m .
  from writes_reconcile[OF this] obtain data ids' data'' info where
    "get_plugins_info (file_api w) data ids' = (data'', Inr (None, info))"
    "writes (reconcile L w od sd ids valid)
         = map (\<lambda>k. sd\<lparr>sd_collections := Some valid, sd_plugins := Some (saved_after L w od
                   (case sd_plugins sd of None \<Rightarrow> [] | Some old_plugins \<Rightarrow> old_plugins) info [] 0 k)\<rparr>)
             [0..<attempts (reconcile L w od sd ids valid)]"
    by blast
  with r show "\<exists>data' ids valid data ids' data'' info.
           get_plugins_id_from_collections_list (recursion_limit w) (collection_api w)
               (collection_data const_data) (collections_asked w argv_collections sd)
             = Some (data', Inr (None, ids, valid))
           \<and> get_plugins_info (file_api w) data ids' = (data'', Inr (None, info))
           \<and> writes (main L w init_error od argv_collections sd)
               = map (\<lambda>k. sd\<lparr>sd_collections := Some valid,
                             sd_plugins := Some (saved_after L w od
                               (case sd_plugins sd of None \<Rightarrow> [] | Some old_plugins \<Rightarrow> old_plugins)
                               info [] 0 k)\<rparr>)
                   [0..<attempts (main L w init_error od argv_collections sd)]"
    unfolding m by blast
qed

theorem writes_only_after_batches_witness:
  "main 0 busy_world 0 ''out'' [''1''] \<lparr>sd_collections = None, sd_plugins = None\<rparr>
     = \<lparr>ending = Done, attempts = 1,
        writes = [\<lparr>sd_collections = Some [''1''], sd_plugins = Some [(''7'', (Some ''g'', Some 5))]\<rparr>]\<rparr>
   \<and> length (writes (main 0 busy_world 0 ''out'' [''1''] \<lparr>sd_collections = None, sd_plugins = None\<rparr>))
     = attempts (main 0 busy_world 0 ''out'' [''1''] \<lparr>sd_collections = None, sd_plugins = None\<rparr>)
   \<and> (\<exists>valid info. writes (main 0 busy_world 0 ''out'' [''1''] \<lparr>sd_collections = None, sd_plugins = None\<rparr>)
         = [\<lparr>sd_collections = Some valid, sd_plugins = Some (saved_after 0 busy_world ''out'' [] info [] 0 0)\<rparr>])"
proof -
  let ?m = "main 0 busy_world 0 ''out'' [''1''] \<lparr>sd_collections = None, sd_plugins = None\<rparr>"
  note t = writes_only_after_batches[of 0 busy_world 0 "''out''" "[''1'']"
      "\<lparr>sd_collections = None, sd_plugins = None\<rparr>"]
  have ne: "writes ?m \<noteq> []" and at: "attempts ?m = 1"
    by (simp_all add: busy_run)
  from t have 1: "length (writes ?m) = attempts ?m"
    by (rule conjunct1)
  from t ne obtain valid info where
    "writes ?m = map (\<lambda>k. \<lparr>sd_collections = None, sd_plugins = None\<rparr>\<lparr>sd_collections := Some valid,
                             sd_plugins := Some (saved_after 0 busy_world ''out''
                               (case sd_plugins \<lparr>sd_collections = None, sd_plugins = None\<rparr> of
                                  None \<Rightarrow> [] | Some old_plugins \<Rightarrow> old_plugins)
                               info [] 0 k)\<rparr>)
                   [0..<attempts ?m]"
    by blast
  then have "writes ?m = [\<lparr>sd_collections = Some valid,
      sd_plugins = Some (saved_after 0 busy_world ''out'' [] info [] 0 0)\<rparr>]"
    unfolding at by simp
  then have 2: "\<exists>valid info. writes ?m = [\<lparr>sd_collections = Some valid,
      sd_plugins = Some (saved_after 0 busy_world ''out'' [] info [] 0 0)\<rparr>]"
    by blast
  from busy_run 1 2 show ?thesis
    by (intro conjI)
qed

text \<open>
  The claim as stated fails on a first run (no state file) for a collection the catalog knows
  and that has no files: the collection is valid, the run ends with the message that all
  plugins were downloaded, and with no batch nothing was written.
\<close>

theorem no_batch_counterexample:
  "main 0 (quiet_world empty_cat) 0 ''out'' [''1''] \<lparr>sd_collections = None, sd_plugins = None\<rparr>
     = \<lparr>ending = Done, attempts = 0, writes = []\<rparr>"
  by (simp add: main_def quiet_world_def resolve_leaf reconcile_def fetch_and_download_def
      get_plugins_info_def loop_nothing)

text \<open>
  C1. With the state file holding the collection \<open>1\<close> and the plugin \<open>9\<close>, and a catalog in
  which \<open>1\<close> has the only file \<open>7\<close>, the plugin \<open>9\<close> is deprecated and its details are
  fetched without error. The run then ends with \<^verbatim>\<open>NameError\<close> at the call of
  \<^verbatim>\<open>print_deprecated_info\<close>: nothing is removed or written and no download is started.
\<close>

theorem pruning_raises_NameError:
  "main 0 (quiet_world one_file_cat) 0 ''out'' []
      \<lparr>sd_collections = Some [''1''], sd_plugins = Some [(''9'', (Some ''old'', Some 1))]\<rparr>
     = \<lparr>ending = Raised (NameError ''print_deprecated_info''), attempts = 0, writes = []\<rparr>"
  by (simp add: main_def quiet_world_def resolve_one_file reconcile_def list_set_def
      plugins_to_remove_def keys_def get_plugins_info_def)



lemma keys_dict_update: "set (keys (dict_update d u)) = set (keys d) \<union> set (keys u)"
proof -
  have "set (keys (fold (\<lambda>kv. AList.update (fst kv) (snd kv)) u d)) = set (keys d) \<union> fst ` set u"
    by (induction u arbitrary: d) (auto simp: keys_update)
  then show ?thesis
    by (simp add: dict_update_def keys_def)
qed

lemma attempt_nothing:
  fixes w :: world
  shows "fst (attempt L w od old [] n) = 0"
proof -
  let ?s = "dl_run L (urlretrieve_at w n) (schedule_at w n) od [] old"
  have "inv_url (zip [0..<length ([] :: plugin list)] []) ?s"
    by (rule inv_url_run)
  then have "fail ?s = []"
    by (cases "fail ?s") (auto simp: inv_url_def)
  moreover have "error ?s = length (fail ?s)"
    using inv_cnt_run[of L "urlretrieve_at w n" "schedule_at w n" od "[]" old]
    by (simp add: inv_cnt_def)
  ultimately show ?thesis
    by (simp add: attempt_def download_plugins_concurrently_def Let_def)
qed

lemma loop_gives_up:
  fixes w :: world
  assumes "sd_plugins sd = Some saved" and "num + r = 5" and "ws = [] \<or> last ws = sd"
    and "\<forall>k<r. 0 < fst (attempt L w od old (batch_of L w od old plugins_info n k) (n + k))"
  shows "ending (download_loop L w od old num plugins_info sd n ws) = GivenUp
    \<and> attempts (download_loop L w od old num plugins_info sd n ws) = n + r
    \<and> length (writes (download_loop L w od old num plugins_info sd n ws)) = length ws + r
    \<and> (\<exists>d. sd_plugins (last (sd # writes (download_loop L w od old num plugins_info sd n ws))) = Some d
          \<and> set (keys saved) \<subseteq> set (keys d)
          \<and> (\<forall>k<r. set (keys (snd (snd (attempt L w od old (batch_of L w od old plugins_info n k) (n + k)))))
                \<subseteq> set (keys d)))"
  using assms
proof (induction r arbitrary: num plugins_info sd saved n ws)
  case 0
  then have "\<not> (plugins_info \<noteq> [] \<and> num < 5)" by simp
  from loop_exit[OF this, of L w od old sd n ws] 0 show ?case
    by auto
next
  case (Suc r)
  obtain e f st where a: "attempt L w od old plugins_info n = (e, f, st)"
    by (cases "attempt L w od old plugins_info n")
  from Suc.prems(4) have "0 < fst (attempt L w od old (batch_of L w od old plugins_info n 0) (n + 0))"
    by blast
  with a have e: "0 < e" by simp
  have ne: "plugins_info \<noteq> []"
    using attempt_nothing[of L w od old n] a e by auto
  have num: "num < 5" using Suc.prems(2) by simp
  let ?sd = "sd\<lparr>sd_plugins := Some (dict_update saved st)\<rparr>"
  have step: "download_loop L w od old num plugins_info sd n ws
      = download_loop L w od old (Suc num) f ?sd (Suc n) (ws @ [?sd])"
    using loop_step[OF ne num Suc.prems(1) a, of ws] e by simp
  have h: "\<forall>k<r. 0 < fst (attempt L w od old (batch_of L w od old f (Suc n) k) (Suc n + k))"
  proof (intro allI impI)
    fix k assume "k < r"
    then have "0 < fst (attempt L w od old (batch_of L w od old plugins_info n (Suc k)) (n + Suc k))"
      using Suc.prems(4) by auto
    then show "0 < fst (attempt L w od old (batch_of L w od old f (Suc n) k) (Suc n + k))"
      using a by simp
  qed
  have ih: "ending (download_loop L w od old (Suc num) f ?sd (Suc n) (ws @ [?sd])) = GivenUp
    \<and> attempts (download_loop L w od old (Suc num) f ?sd (Suc n) (ws @ [?sd])) = Suc n + r
    \<and> length (writes (download_loop L w od old (Suc num) f ?sd (Suc n) (ws @ [?sd]))) = length (ws @ [?sd]) + r
    \<and> (\<exists>d. sd_plugins (last (?sd # writes (download_loop L w od old (Suc num) f ?sd (Suc n) (ws @ [?sd])))) = Some d
          \<and> set (keys (dict_update saved st)) \<subseteq> set (keys d)
          \<and> (\<forall>k<r. set (keys (snd (snd (attempt L w od old (batch_of L w od old f (Suc n) k) (Suc n + k)))))
                \<subseteq> set (keys d)))"
    using Suc.prems(2) h by (intro Suc.IH) simp_all
  let ?res = "download_loop L w od old (Suc num) f ?sd (Suc n) (ws @ [?sd])"
  from ih obtain d where d: "sd_plugins (last (?sd # writes ?res)) = Some d"
    "set (keys (dict_update saved st)) \<subseteq> set (keys d)"
    "\<forall>k<r. set (keys (snd (snd (attempt L w od old (batch_of L w od old f (Suc n) k) (Suc n + k)))))
                \<subseteq> set (keys d)"
    by blast
  from ih have len: "length (writes ?res) = Suc (length ws + r)" by simp
  then have "writes ?res \<noteq> []" by auto
  then have last: "last (sd # writes ?res) = last (?sd # writes ?res)" by simp
  have all: "\<forall>k<Suc r. set (keys (snd (snd (attempt L w od old (batch_of L w od old plugins_info n k) (n + k)))))
                \<subseteq> set (keys d)"
  proof (intro allI impI)
    fix k assume k: "k < Suc r"
    show "set (keys (snd (snd (attempt L w od old (batch_of L w od old plugins_info n k) (n + k))))) \<subseteq> set (keys d)"
    proof (cases k)
      case 0
      then show ?thesis using a d(2) by (simp add: keys_dict_update)
    next
      case (Suc k')
      then have "k' < r" using k by simp
      with d(3) have "set (keys (snd (snd (attempt L w od old (batch_of L w od old f (Suc n) k') (Suc n + k')))))
                \<subseteq> set (keys d)" by blast
      then show ?thesis using Suc a by simp
    qed
  qed
  have "set (keys saved) \<subseteq> set (keys d)"
    using d(2) by (simp add: keys_dict_update)
  with ih d(1) all last len show ?case
    unfolding step by simp
qed

text \<open>
  C5. When the first five calls of \<^verbatim>\<open>download_plugins_concurrently\<close> of the loop, each on the
  failed list of the one before, all return a positive \<open>error\<close>, the loop ends with the
  message that it gave up after exactly five calls and five writes of the state file, and
  the state written last holds, besides what \<^verbatim>\<open>saved_data['plugins']\<close> held before, every key
  that any of the five calls returned in \<open>succeed\<close>.
\<close>

theorem five_failures_give_up:
  fixes w :: world
  assumes "sd_plugins sd = Some saved"
    and "\<forall>k<5. 0 < fst (attempt L w od old (batch_of L w od old plugins_info 0 k) k)"
  shows "ending (download_loop L w od old 0 plugins_info sd 0 []) = GivenUp
    \<and> attempts (download_loop L w od old 0 plugins_info sd 0 []) = 5
    \<and> length (writes (download_loop L w od old 0 plugins_info sd 0 [])) = 5
    \<and> (\<exists>d. sd_plugins (last (writes (download_loop L w od old 0 plugins_info sd 0 []))) = Some d
          \<and> set (keys saved) \<subseteq> set (keys d)
          \<and> (\<forall>k<5. set (keys (snd (snd (attempt L w od old (batch_of L w od old plugins_info 0 k) k))))
                \<subseteq> set (keys d)))"
proof -
  let ?res = "download_loop L w od old 0 plugins_info sd 0 []"
  have g: "ending ?res = GivenUp \<and> attempts ?res = 0 + 5 \<and> length (writes ?res) = length ([] :: saved_data list) + 5
    \<and> (\<exists>d. sd_plugins (last (sd # writes ?res)) = Some d
          \<and> set (keys saved) \<subseteq> set (keys d)
          \<and> (\<forall>k<5. set (keys (snd (snd (attempt L w od old (batch_of L w od old plugins_info 0 k) (0 + k)))))
                \<subseteq> set (keys d)))"
    using assms by (intro loop_gives_up) simp_all
  then have "writes ?res \<noteq> []" by auto
  then have "last (sd # writes ?res) = last (writes ?res)" by simp
  with g show ?thesis by simp
qed

lemma attempt_first:
  "attempt 0 flaky_world ''out'' [] two_plugins 0
     = (1, [mk_plugin ''2'' ''b'' 5 (Some ''u2'')], [(''1'', (Some ''a'', Some 5))])"
  by (simp add: attempt_def download_plugins_concurrently_def dl_run_def dl_join_def dl_start_def
      two_plugins_def mk_plugin_def dispatch_def flaky_world_def
      download_plugin_def up_to_date_def path_join_def meta_of_def Let_def upt_rec numeral_nat)

lemma attempt_again:
  "attempt 0 flaky_world ''out'' [] [mk_plugin ''2'' ''b'' 5 (Some ''u2'')] n
     = (1, [mk_plugin ''2'' ''b'' 5 (Some ''u2'')], [])"
  by (simp add: attempt_def download_plugins_concurrently_def dl_run_def dl_join_def dl_start_def
      mk_plugin_def dispatch_def flaky_world_def
      download_plugin_def up_to_date_def path_join_def meta_of_def Let_def upt_rec numeral_nat)

lemma batch_again:
  "batch_of 0 flaky_world ''out'' [] [mk_plugin ''2'' ''b'' 5 (Some ''u2'')] n k
     = [mk_plugin ''2'' ''b'' 5 (Some ''u2'')]"
  by (induction k arbitrary: n) (simp_all add: attempt_again)

lemma batch_flaky:
  "batch_of 0 flaky_world ''out'' [] two_plugins 0 k
     = (if k = 0 then two_plugins else [mk_plugin ''2'' ''b'' 5 (Some ''u2'')])"
  by (cases k) (simp_all add: attempt_first batch_again)

lemma flaky_fails:
  "0 < fst (attempt 0 flaky_world ''out'' [] (batch_of 0 flaky_world ''out'' [] two_plugins 0 k) k)"
  by (simp add: batch_flaky attempt_first attempt_again)

theorem five_failures_give_up_witness:
  "ending (download_loop 0 flaky_world ''out'' [] 0 two_plugins
       \<lparr>sd_collections = Some [''1''], sd_plugins = Some []\<rparr> 0 []) = GivenUp
   \<and> attempts (download_loop 0 flaky_world ''out'' [] 0 two_plugins
       \<lparr>sd_collections = Some [''1''], sd_plugins = Some []\<rparr> 0 []) = 5
   \<and> (\<exists>d. sd_plugins (last (writes (download_loop 0 flaky_world ''out'' [] 0 two_plugins
       \<lparr>sd_collections = Some [''1''], sd_plugins = Some []\<rparr> 0 []))) = Some d
         \<and> ''1'' \<in> set (keys d))"
proof -
  have 1: "sd_plugins \<lparr>sd_collections = Some [''1''], sd_plugins = Some []\<rparr> = Some []"
    by simp
  have 2: "\<forall>k<5. 0 < fst (attempt 0 flaky_world ''out'' [] (batch_of 0 flaky_world ''out'' [] two_plugins 0 k) k)"
    by (simp add: flaky_fails)
  have 3: "set (keys (snd (snd (attempt 0 flaky_world ''out'' [] (batch_of 0 flaky_world ''out'' [] two_plugins 0 0) 0))))
      = {''1''}"
    by (simp add: attempt_first keys_def)
  let ?res = "download_loop 0 flaky_world ''out'' [] 0 two_plugins
       \<lparr>sd_collections = Some [''1''], sd_plugins = Some []\<rparr> 0 []"
  note t = five_failures_give_up[OF 1 2]
  from t have e: "ending ?res = GivenUp" and a: "attempts ?res = 5"
    by (rule conjunct1, rule conjunct2[THEN conjunct1])
  from t obtain d where d: "sd_plugins (last (writes ?res)) = Some d"
    and k: "\<forall>k<5. set (keys (snd (snd (attempt 0 flaky_world ''out'' []
              (batch_of 0 flaky_world ''out'' [] two_plugins 0 k) k)))) \<subseteq> set (keys d)"
    by (elim conjE exE)
  have "set (keys (snd (snd (attempt 0 flaky_world ''out'' []
              (batch_of 0 flaky_world ''out'' [] two_plugins 0 0) 0)))) \<subseteq> set (keys d)"
    using k[rule_format, of 0] by simp
  with 3 have "''1'' \<in> set (keys d)"
    by (simp only: insert_subset)
  with d have "\<exists>d. sd_plugins (last (writes ?res)) = Some d \<and> ''1'' \<in> set (keys d)"
    by (intro exI conjI)
  with e a show ?thesis
    by (intro conjI)
qed


end
